theory Spec2Isabelle
  imports Main "HOL-Library.AList" "HOL-Library.Word"
begin

section \<open>The stream server of \<^verbatim>\<open>server.js\<close>\<close>

text \<open>
  \<^verbatim>\<open>server.js\<close> keeps one module-level table \<^verbatim>\<open>streams = new Map()\<close> from a WebSocket
  port to the objects of the stream relayed on that port, and reacts to HTTP requests and
  to the events of the objects it created (the \<^verbatim>\<open>ffmpeg\<close> child processes and the
  \<^verbatim>\<open>WebSocketServer\<close>s). Node runs every handler to completion before the next one
  starts, so the program is a state machine whose steps are the handlers. The objects
  live in a store (lists indexed by the number of the object), because the table and the
  handlers' closures refer to the same objects.

  Modelled: \<^verbatim>\<open>startStream\<close>, \<^verbatim>\<open>stopStream\<close>, the handlers that \<^verbatim>\<open>startStream\<close> attaches, and
  the routes \<^verbatim>\<open>/api/start-stream\<close>, \<^verbatim>\<open>/api/stop-stream\<close> and \<^verbatim>\<open>/api/streams\<close>. Left out: the
  search for the executable, the route \<^verbatim>\<open>/api/check-ffmpeg\<close>, and the \<^verbatim>\<open>SIGINT\<close> handler,
  after which the process has exited. A \<^verbatim>\<open>WebSocketServer\<close> whose \<^verbatim>\<open>listen\<close> fails after the
  constructor returned emits \<^verbatim>\<open>'error'\<close>, for which \<^verbatim>\<open>server.js\<close> attaches no handler; such
  runs are left out too. The key \<^verbatim>\<open>wsPort\<close> is taken to be a number.
\<close>

subsection \<open>Data\<close>

type_synonym port = int

type_synonym chunk = "8 word list"

text \<open>The template strings of the source, one constructor per template.\<close>

datatype message =
    StreamStarted port   \<comment> \<open>\<^verbatim>\<open>Stream started on port ${wsPort}\<close>\<close>
  | PortInUse port       \<comment> \<open>\<^verbatim>\<open>Port ${wsPort} is already in use\<close>\<close>
  | NoStreamFound port   \<comment> \<open>\<^verbatim>\<open>No stream found on port ${wsPort}\<close>\<close>
  | StreamStopped port   \<comment> \<open>\<^verbatim>\<open>Stream on port ${wsPort} stopped\<close>\<close>
  | ExnMessage string    \<comment> \<open>\<^verbatim>\<open>e.message\<close> of a caught exception\<close>

datatype ws_url = WsUrl port   \<comment> \<open>\<^verbatim>\<open>ws://127.0.0.1:${port}\<close>\<close>

text \<open>The objects returned to the HTTP caller: their \<^verbatim>\<open>success\<close> field is the constructor.\<close>

datatype result =
    StartOk message ws_url port   \<comment> \<open>\<^verbatim>\<open>{success: true, message, ws_url, port}\<close>\<close>
  | StopOk message port           \<comment> \<open>\<^verbatim>\<open>{success: true, message, port}\<close>\<close>
  | Failure message               \<comment> \<open>\<^verbatim>\<open>{success: false, message}\<close>\<close>

fun success :: "result \<Rightarrow> bool" where
  "success (StartOk m u p) = True"
| "success (StopOk m p) = True"
| "success (Failure m) = False"

type_synonym response = "nat \<times> result"   \<comment> \<open>HTTP status and JSON body\<close>

datatype log_entry =
    LogStarting string port        \<comment> \<open>\<^verbatim>\<open>Starting stream: ${rtspUrl} on port ${wsPort}\<close>\<close>
  | LogFFmpeg port string          \<comment> \<open>\<^verbatim>\<open>FFmpeg [${wsPort}]:\<close> and the trimmed text\<close>
  | LogExited "int option"         \<comment> \<open>\<^verbatim>\<open>FFmpeg process exited with code ${code}\<close>\<close>
  | LogError string                \<comment> \<open>\<^verbatim>\<open>FFmpeg error:\<close> and the error\<close>
  | LogConnected port              \<comment> \<open>\<^verbatim>\<open>Client connected to stream on port ${wsPort}\<close>\<close>
  | LogDisconnected port           \<comment> \<open>\<^verbatim>\<open>Client disconnected from stream on port ${wsPort}\<close>\<close>

text \<open>What the program does to the outside, in program order.\<close>

datatype action =
    Console log_entry
  | Listen nat port        \<comment> \<open>\<^verbatim>\<open>new WebSocketServer({ port })\<close> made server number \<open>n\<close>\<close>
  | Spawn nat string       \<comment> \<open>\<^verbatim>\<open>spawn(FFMPEG_PATH, [...])\<close> made child number \<open>n\<close>\<close>
  | RegistrySet port       \<comment> \<open>\<^verbatim>\<open>streams.set\<close>\<close>
  | Kill nat               \<comment> \<open>\<^verbatim>\<open>ffmpeg.kill('SIGTERM')\<close>\<close>
  | WssClose nat           \<comment> \<open>\<^verbatim>\<open>wss.close()\<close>\<close>
  | RegistryDelete port    \<comment> \<open>\<^verbatim>\<open>streams.delete\<close>\<close>

text \<open>The value stored in \<^verbatim>\<open>streams\<close>: \<^verbatim>\<open>{ rtspUrl, wss, ffmpeg, totalBytes: 0 }\<close>.\<close>

record stream_info =
  rtspUrl :: string
  wss :: nat
  ffmpeg :: nat
  totalBytes :: nat

text \<open>
  A \<^verbatim>\<open>WebSocketServer\<close>: the port it listens on, whether \<^verbatim>\<open>close()\<close> was called, and its
  \<^verbatim>\<open>clients\<close> set (socket numbers, in insertion order).
\<close>

record wsserver =
  wport :: port
  closed :: bool
  clients :: "nat list"

datatype child_status =
    Running        \<comment> \<open>the process runs and no signal was sent to it\<close>
  | LaunchFailed   \<comment> \<open>the object exists, the operating system started nothing\<close>
  | Terminating    \<comment> \<open>\<^verbatim>\<open>SIGTERM\<close> was sent\<close>
  | Exited

text \<open>
  A child process together with what the handlers attached to it in \<^verbatim>\<open>startStream\<close>
  captured: \<^verbatim>\<open>wsPort\<close>, \<^verbatim>\<open>wss\<close> and the local variable \<^verbatim>\<open>totalBytes\<close>.
\<close>

record child =
  cport :: port
  cwss :: nat
  status :: child_status
  local_totalBytes :: nat

text \<open>
  A client socket: the server that accepted it, its \<^verbatim>\<open>readyState\<close> (1 is \<^verbatim>\<open>OPEN\<close>,
  2 \<^verbatim>\<open>CLOSING\<close>, 3 \<^verbatim>\<open>CLOSED\<close>) and the chunks passed to its \<^verbatim>\<open>send\<close>, oldest first.
\<close>

record socket =
  swss :: nat
  readyState :: nat
  sent :: "chunk list"

text \<open>
  \<^verbatim>\<open>streams\<close> is a JavaScript \<^verbatim>\<open>Map\<close>, which iterates in insertion order: an association
  list, with \<^const>\<open>AList.update\<close> for \<^verbatim>\<open>set\<close> (in place for a key that is present, at
  the end otherwise) and \<^const>\<open>AList.delete\<close> for \<^verbatim>\<open>delete\<close>.
\<close>

record server_state =
  streams :: "(port \<times> stream_info) list"
  servers :: "wsserver list"
  children :: "child list"
  sockets :: "socket list"
  trace :: "action list"

definition init :: server_state where
  "init = \<lparr>streams = [], servers = [], children = [], sockets = [], trace = []\<rparr>"

subsection \<open>The environment\<close>

text \<open>
  Constructing the \<^verbatim>\<open>WebSocketServer\<close> and calling \<^verbatim>\<open>spawn\<close> are calls into Node: each
  either throws, or returns an object. A launch that fails in the operating system (no
  such executable, no permission) does not throw: \<^verbatim>\<open>spawn\<close> returns the child object and
  the failure arrives later as the child's \<^verbatim>\<open>'error'\<close> event. Which of these happens is
  a parameter of the model.
\<close>

datatype bind_outcome = BindThrows string | BindListens

datatype spawn_outcome = SpawnThrows string | SpawnFails | SpawnRuns

datatype start_body = BadStartBody string | StartBody string port

datatype stop_body = BadStopBody string | StopBody port

subsection \<open>Store helpers\<close>

definition upd_at :: "nat \<Rightarrow> ('a \<Rightarrow> 'a) \<Rightarrow> 'a list \<Rightarrow> 'a list" where
  "upd_at i f xs = (if i < length xs then xs[i := f (xs ! i)] else xs)"

definition emit :: "action \<Rightarrow> server_state \<Rightarrow> server_state" where
  "emit a s = s\<lparr>trace := trace s @ [a]\<rparr>"

definition streams_has :: "server_state \<Rightarrow> port \<Rightarrow> bool" where
  "streams_has s p = (map_of (streams s) p \<noteq> None)"

definition streams_get :: "server_state \<Rightarrow> port \<Rightarrow> stream_info option" where
  "streams_get s p = map_of (streams s) p"

definition streams_set :: "port \<Rightarrow> stream_info \<Rightarrow> server_state \<Rightarrow> server_state" where
  "streams_set p v s = emit (RegistrySet p) (s\<lparr>streams := AList.update p v (streams s)\<rparr>)"

definition streams_delete :: "port \<Rightarrow> server_state \<Rightarrow> server_state" where
  "streams_delete p s = emit (RegistryDelete p) (s\<lparr>streams := AList.delete p (streams s)\<rparr>)"

text \<open>\<^verbatim>\<open>ffmpeg.kill('SIGTERM')\<close>: the signal reaches a process that runs, and nothing else.\<close>

definition kill :: "nat \<Rightarrow> server_state \<Rightarrow> server_state" where
  "kill pid s = emit (Kill pid)
     (s\<lparr>children := upd_at pid
          (\<lambda>c. c\<lparr>status := (if status c = Running then Terminating else status c)\<rparr>)
          (children s)\<rparr>)"

text \<open>
  \<^verbatim>\<open>wss.close()\<close> stops the listener and nothing else: with the \<^verbatim>\<open>ws\<close> version the
  repository declares (\<^verbatim>\<open>^8\<close>), the sockets of the connected clients stay open, in
  \<^verbatim>\<open>clients\<close>, until their own \<^verbatim>\<open>'close'\<close> events.
\<close>

definition wss_close :: "nat \<Rightarrow> server_state \<Rightarrow> server_state" where
  "wss_close wid s = emit (WssClose wid)
     (s\<lparr>servers := upd_at wid (\<lambda>w. w\<lparr>closed := True\<rparr>) (servers s)\<rparr>)"

subsection \<open>\<^verbatim>\<open>stopStream\<close>\<close>

text \<open>
  The tests \<^verbatim>\<open>if (stream.ffmpeg)\<close> and \<^verbatim>\<open>if (stream.wss)\<close> of the source always succeed:
  both fields hold the objects stored by \<^verbatim>\<open>startStream\<close>.
\<close>

definition stopStream :: "server_state \<Rightarrow> port \<Rightarrow> server_state \<times> result" where
  "stopStream s wsPort =
     (case streams_get s wsPort of
        None \<Rightarrow> (s, Failure (NoStreamFound wsPort))
      | Some stream \<Rightarrow>
          (streams_delete wsPort (wss_close (wss stream) (kill (ffmpeg stream) s)),
           StopOk (StreamStopped wsPort) wsPort))"

subsection \<open>\<^verbatim>\<open>startStream\<close> and the handlers it attaches\<close>

text \<open>
  The first component of the result is the state the call leaves behind, also when it
  throws; the second is the thrown exception's message (\<open>Inl\<close>) or the returned object.
\<close>

definition startStream ::
  "bind_outcome \<Rightarrow> spawn_outcome \<Rightarrow> server_state \<Rightarrow> string \<Rightarrow> port \<Rightarrow> server_state \<times> (string + result)"
where
  "startStream bo so s rtsp wsPort =
     (let s0 = emit (Console (LogStarting rtsp wsPort)) s in
      case bo of
        BindThrows m \<Rightarrow> (s0, Inl m)
      | BindListens \<Rightarrow>
          (let wid = length (servers s0);
               s1 = emit (Listen wid wsPort)
                      (s0\<lparr>servers := servers s0 @ [\<lparr>wport = wsPort, closed = False, clients = []\<rparr>]\<rparr>)
           in case so of
                SpawnThrows m \<Rightarrow> (s1, Inl m)
              | _ \<Rightarrow>
                  (let pid = length (children s1);
                       s2 = emit (Spawn pid rtsp)
                              (s1\<lparr>children := children s1 @
                                    [\<lparr>cport = wsPort, cwss = wid,
                                      status = (if so = SpawnFails then LaunchFailed else Running),
                                      local_totalBytes = 0\<rparr>]\<rparr>);
                       s3 = streams_set wsPort
                              \<lparr>rtspUrl = rtsp, wss = wid, ffmpeg = pid, totalBytes = 0\<rparr> s2
                   in (s3, Inr (StartOk (StreamStarted wsPort) (WsUrl wsPort) wsPort)))))"

text \<open>\<^verbatim>\<open>wss.clients.forEach\<close> of the \<^verbatim>\<open>stdout\<close> handler.\<close>

definition send_if_open :: "chunk \<Rightarrow> socket list \<Rightarrow> nat \<Rightarrow> socket list" where
  "send_if_open data socks c =
     upd_at c (\<lambda>k. if readyState k = 1 then k\<lparr>sent := sent k @ [data]\<rparr> else k) socks"

definition broadcast :: "chunk \<Rightarrow> nat list \<Rightarrow> socket list \<Rightarrow> socket list" where
  "broadcast data cs socks = foldl (send_if_open data) socks cs"

text \<open>\<^verbatim>\<open>ffmpeg.stdout.on('data')\<close> of child \<open>pid\<close>, whose closure holds server \<open>wid\<close>.\<close>

definition ffmpeg_stdout_on_data :: "server_state \<Rightarrow> nat \<Rightarrow> nat \<Rightarrow> chunk \<Rightarrow> server_state" where
  "ffmpeg_stdout_on_data s pid wid data =
     (let s1 = s\<lparr>children := upd_at pid
                  (\<lambda>c. c\<lparr>local_totalBytes := local_totalBytes c + length data\<rparr>) (children s)\<rparr>
      in if wid < length (servers s1)
         then s1\<lparr>sockets := broadcast data (clients (servers s1 ! wid)) (sockets s1)\<rparr>
         else s1)"

text \<open>
  \<^verbatim>\<open>String.prototype.includes\<close> and \<^verbatim>\<open>trim\<close>. The text is the decoded string, one
  character per code unit below 256, where the white space of JavaScript is the six
  ASCII characters and the no-break space.
\<close>

fun starts_with :: "string \<Rightarrow> string \<Rightarrow> bool" where
  "starts_with s [] = True"
| "starts_with [] (p # ps) = False"
| "starts_with (c # cs) (p # ps) = (c = p \<and> starts_with cs ps)"

fun js_includes :: "string \<Rightarrow> string \<Rightarrow> bool" where
  "js_includes [] pat = (pat = [])"
| "js_includes (c # cs) pat = (starts_with (c # cs) pat \<or> js_includes cs pat)"

definition js_space :: "char \<Rightarrow> bool" where
  "js_space c = (c \<in> set [CHR 0x09, CHR 0x0A, CHR 0x0B, CHR 0x0C, CHR 0x0D, CHR 0x20, CHR 0xA0])"

definition trim :: "string \<Rightarrow> string" where
  "trim s = rev (dropWhile js_space (rev (dropWhile js_space s)))"

text \<open>\<^verbatim>\<open>ffmpeg.stderr.on('data')\<close>; its closure holds \<^verbatim>\<open>wsPort\<close>.\<close>

definition ffmpeg_stderr_on_data :: "server_state \<Rightarrow> port \<Rightarrow> string \<Rightarrow> server_state" where
  "ffmpeg_stderr_on_data s wsPort msg =
     (if \<not> js_includes msg ''frame='' then emit (Console (LogFFmpeg wsPort (trim msg))) s else s)"

text \<open>\<^verbatim>\<open>ffmpeg.on('close')\<close> and \<^verbatim>\<open>ffmpeg.on('error')\<close>; their closures hold \<^verbatim>\<open>wsPort\<close>.\<close>

definition ffmpeg_on_close :: "server_state \<Rightarrow> port \<Rightarrow> int option \<Rightarrow> server_state" where
  "ffmpeg_on_close s wsPort code = fst (stopStream (emit (Console (LogExited code)) s) wsPort)"

definition ffmpeg_on_error :: "server_state \<Rightarrow> port \<Rightarrow> string \<Rightarrow> server_state" where
  "ffmpeg_on_error s wsPort err = fst (stopStream (emit (Console (LogError err)) s) wsPort)"

text \<open>\<^verbatim>\<open>wss.on('connection')\<close> and the \<^verbatim>\<open>ws.on('close')\<close> it attaches.\<close>

definition wss_on_connection :: "server_state \<Rightarrow> port \<Rightarrow> server_state" where
  "wss_on_connection s wsPort = emit (Console (LogConnected wsPort)) s"

definition ws_on_close :: "server_state \<Rightarrow> port \<Rightarrow> server_state" where
  "ws_on_close s wsPort = emit (Console (LogDisconnected wsPort)) s"

subsection \<open>The HTTP handlers\<close>

text \<open>
  \<^verbatim>\<open>/api/start-stream\<close>: a body that does not parse and an exception of \<^verbatim>\<open>startStream\<close>
  both end in the \<^verbatim>\<open>catch\<close>.
\<close>

definition http_start ::
  "bind_outcome \<Rightarrow> spawn_outcome \<Rightarrow> server_state \<Rightarrow> start_body \<Rightarrow> server_state \<times> response"
where
  "http_start bo so s body =
     (case body of
        BadStartBody m \<Rightarrow> (s, (400, Failure (ExnMessage m)))
      | StartBody rtsp wsPort \<Rightarrow>
          if streams_has s wsPort then (s, (400, Failure (PortInUse wsPort)))
          else (case startStream bo so s rtsp wsPort of
                  (s', Inl m) \<Rightarrow> (s', (400, Failure (ExnMessage m)))
                | (s', Inr r) \<Rightarrow> (s', (200, r))))"

definition http_stop :: "server_state \<Rightarrow> stop_body \<Rightarrow> server_state \<times> response" where
  "http_stop s body =
     (case body of
        BadStopBody m \<Rightarrow> (s, (400, Failure (ExnMessage m)))
      | StopBody wsPort \<Rightarrow> (case stopStream s wsPort of (s', r) \<Rightarrow> (s', (200, r))))"

record stream_row =
  row_port :: port
  row_rtsp_url :: string
  row_ws_url :: ws_url
  row_active :: bool

definition http_streams :: "server_state \<Rightarrow> stream_row list" where
  "http_streams s =
     map (\<lambda>(p, info). \<lparr>row_port = p, row_rtsp_url = rtspUrl info, row_ws_url = WsUrl p,
                        row_active = True\<rparr>) (streams s)"

subsection \<open>Events and runs\<close>

text \<open>
  An event names the object it happens to. The library's part of an event comes first
  (a child that closed has exited; an accepted socket is open and in its server's
  \<^verbatim>\<open>clients\<close>; a closed socket has left them), then the handler of the source runs. An
  event of an object that does not exist, and a connection to a closed server, cannot
  happen and change nothing.
\<close>

datatype event =
    HttpStart start_body bind_outcome spawn_outcome
  | HttpStop stop_body
  | HttpStreams
  | StdoutData nat chunk
  | StderrData nat string
  | ChildClose nat "int option"
  | ChildError nat string
  | WsConnect nat
  | WsClosing nat
  | WsClose nat

definition accept :: "nat \<Rightarrow> server_state \<Rightarrow> server_state" where
  "accept wid s =
     s\<lparr>sockets := sockets s @ [\<lparr>swss = wid, readyState = 1, sent = []\<rparr>],
       servers := upd_at wid (\<lambda>w. w\<lparr>clients := clients w @ [length (sockets s)]\<rparr>) (servers s)\<rparr>"

definition drop_client :: "nat \<Rightarrow> server_state \<Rightarrow> server_state" where
  "drop_client c s =
     s\<lparr>sockets := upd_at c (\<lambda>k. k\<lparr>readyState := 3\<rparr>) (sockets s),
       servers := upd_at (swss (sockets s ! c)) (\<lambda>w. w\<lparr>clients := removeAll c (clients w)\<rparr>)
                    (servers s)\<rparr>"

definition step :: "server_state \<Rightarrow> event \<Rightarrow> server_state" where
  "step s e =
     (case e of
        HttpStart body bo so \<Rightarrow> fst (http_start bo so s body)
      | HttpStop body \<Rightarrow> fst (http_stop s body)
      | HttpStreams \<Rightarrow> s
      | StdoutData pid data \<Rightarrow>
          if pid < length (children s)
          then ffmpeg_stdout_on_data s pid (cwss (children s ! pid)) data else s
      | StderrData pid msg \<Rightarrow>
          if pid < length (children s)
          then ffmpeg_stderr_on_data s (cport (children s ! pid)) msg else s
      | ChildClose pid code \<Rightarrow>
          if pid < length (children s)
          then ffmpeg_on_close (s\<lparr>children := upd_at pid (\<lambda>c. c\<lparr>status := Exited\<rparr>) (children s)\<rparr>)
                 (cport (children s ! pid)) code
          else s
      | ChildError pid err \<Rightarrow>
          if pid < length (children s)
          then ffmpeg_on_error s (cport (children s ! pid)) err else s
      | WsConnect wid \<Rightarrow>
          if wid < length (servers s) \<and> \<not> closed (servers s ! wid)
          then wss_on_connection (accept wid s) (wport (servers s ! wid)) else s
      | WsClosing c \<Rightarrow>
          if c < length (sockets s) \<and> readyState (sockets s ! c) = 1
          then s\<lparr>sockets := upd_at c (\<lambda>k. k\<lparr>readyState := 2\<rparr>) (sockets s)\<rparr> else s
      | WsClose c \<Rightarrow>
          if c < length (sockets s) \<and> readyState (sockets s ! c) \<noteq> 3
          then ws_on_close (drop_client c s) (wport (servers s ! swss (sockets s ! c))) else s)"

definition run :: "server_state \<Rightarrow> event list \<Rightarrow> server_state" where
  "run s es = foldl step s es"

subsection \<open>Vocabulary of the properties\<close>

fun spawn_throws :: "spawn_outcome \<Rightarrow> bool" where
  "spawn_throws (SpawnThrows m) = True"
| "spawn_throws SpawnFails = False"
| "spawn_throws SpawnRuns = False"

fun sync_spawn_throw :: "event \<Rightarrow> bool" where
  "sync_spawn_throw (HttpStart body bo so) = spawn_throws so"
| "sync_spawn_throw e = False"

text \<open>The objects a call of \<^const>\<open>startStream\<close> in state \<open>s\<close> creates.\<close>

definition new_server :: "port \<Rightarrow> wsserver" where
  "new_server K = \<lparr>wport = K, closed = False, clients = []\<rparr>"

definition new_child :: "spawn_outcome \<Rightarrow> server_state \<Rightarrow> port \<Rightarrow> child" where
  "new_child so s K = \<lparr>cport = K, cwss = length (servers s),
      status = (if so = SpawnFails then LaunchFailed else Running), local_totalBytes = 0\<rparr>"

definition new_info :: "server_state \<Rightarrow> string \<Rightarrow> stream_info" where
  "new_info s u = \<lparr>rtspUrl = u, wss = length (servers s), ffmpeg = length (children s), totalBytes = 0\<rparr>"

text \<open>
  The listeners on port \<open>K\<close> that were not closed, and the children started for \<open>K\<close>
  that run and were not signalled.
\<close>

definition live_relays :: "server_state \<Rightarrow> port \<Rightarrow> nat list" where
  "live_relays s K =
     filter (\<lambda>w. wport (servers s ! w) = K \<and> \<not> closed (servers s ! w)) [0..<length (servers s)]"

definition live_handles :: "server_state \<Rightarrow> port \<Rightarrow> nat list" where
  "live_handles s K =
     filter (\<lambda>p. cport (children s ! p) = K \<and> status (children s ! p) = Running)
       [0..<length (children s)]"

text \<open>
  The order the specification asks for: every \<open>Listen\<close> on a port comes after a
  \<open>RegistrySet\<close> of that port. The first argument collects the ports set so far.
\<close>

fun bound_only_after_insert :: "port list \<Rightarrow> action list \<Rightarrow> bool" where
  "bound_only_after_insert seen [] = True"
| "bound_only_after_insert seen (Listen w p # as) = (p \<in> set seen \<and> bound_only_after_insert seen as)"
| "bound_only_after_insert seen (RegistrySet p # as) = bound_only_after_insert (p # seen) as"
| "bound_only_after_insert seen (a # as) = bound_only_after_insert seen as"

text \<open>Socket \<open>c\<close> is an open client of server \<open>w\<close>.\<close>

definition viewer :: "server_state \<Rightarrow> nat \<Rightarrow> nat \<Rightarrow> bool" where
  "viewer s w c = (w < length (servers s) \<and> c \<in> set (clients (servers s ! w)) \<and>
     c < length (sockets s) \<and> readyState (sockets s ! c) = 1)"

text \<open>No event of the run closes socket \<open>c\<close> or starts closing it.\<close>

definition keeps_open :: "nat \<Rightarrow> event list \<Rightarrow> bool" where
  "keeps_open c es = list_all (\<lambda>e. e \<noteq> WsClose c \<and> e \<noteq> WsClosing c) es"

text \<open>
  The chunks that the children attached to server \<open>w\<close> in state \<open>s\<close> write to their
  \<^verbatim>\<open>stdout\<close> in the events \<open>es\<close>, in the order of the events.
\<close>

fun stdout_for :: "server_state \<Rightarrow> nat \<Rightarrow> event \<Rightarrow> chunk list" where
  "stdout_for s w (StdoutData pid d) =
     (if pid < length (children s) \<and> cwss (children s ! pid) = w then [d] else [])"
| "stdout_for s w e = []"

definition chunks_of :: "server_state \<Rightarrow> nat \<Rightarrow> event list \<Rightarrow> chunk list" where
  "chunks_of s w es = concat (map (stdout_for s w) es)"

text \<open>
  The stream that was registered under \<open>K\<close> with the objects \<open>info\<close> is gone: the key is
  absent, also from the answer of \<^verbatim>\<open>/api/streams\<close>, \<^verbatim>\<open>close()\<close> was called on its
  server and its child does not run unsignalled.
\<close>

definition torn_down :: "server_state \<Rightarrow> port \<Rightarrow> stream_info \<Rightarrow> bool" where
  "torn_down s K info =
     (streams_get s K = None \<and> K \<notin> set (map row_port (http_streams s)) \<and>
      closed (servers s ! wss info) \<and> status (children s ! ffmpeg info) \<noteq> Running)"

subsection \<open>Invariants\<close>

text \<open>Every entry of \<^verbatim>\<open>streams\<close> holds the objects made for its key, and its counter is 0.\<close>

definition reg_ok :: "server_state \<Rightarrow> bool" where
  "reg_ok s = (\<forall>(K, info) \<in> set (streams s).
      wss info < length (servers s) \<and> ffmpeg info < length (children s) \<and>
      wport (servers s ! wss info) = K \<and> cport (children s ! ffmpeg info) = K \<and>
      cwss (children s ! ffmpeg info) = wss info \<and> totalBytes info = 0)"

text \<open>The \<^verbatim>\<open>clients\<close> of a server are distinct sockets that this server accepted.\<close>

definition clients_ok :: "server_state \<Rightarrow> bool" where
  "clients_ok s = (\<forall>w < length (servers s).
      distinct (clients (servers s ! w)) \<and>
      (\<forall>c \<in> set (clients (servers s ! w)). c < length (sockets s) \<and> swss (sockets s ! c) = w))"

text \<open>A running child, and an open listener, is the one registered under its port.\<close>

definition running_reg :: "server_state \<Rightarrow> bool" where
  "running_reg s = (\<forall>p < length (children s). status (children s ! p) = Running \<longrightarrow>
      (\<exists>info. map_of (streams s) (cport (children s ! p)) = Some info \<and> ffmpeg info = p))"

definition open_reg :: "server_state \<Rightarrow> bool" where
  "open_reg s = (\<forall>w < length (servers s). \<not> closed (servers s ! w) \<longrightarrow>
      (\<exists>info. map_of (streams s) (wport (servers s ! w)) = Some info \<and> wss info = w))"

text \<open>The server in the closure of a child's \<^verbatim>\<open>stdout\<close> handler exists.\<close>

definition children_ok :: "server_state \<Rightarrow> bool" where
  "children_ok s = (\<forall>x \<in> set (map cwss (children s)). x < length (servers s))"

section \<open>Facts about the model\<close>

subsection \<open>What each operation changes\<close>

lemma length_upd_at [simp]: "length (upd_at i f xs) = length xs"
  by (simp add: upd_at_def)

lemma nth_upd_at: "j < length xs \<Longrightarrow> upd_at i f xs ! j = (if j = i then f (xs ! j) else xs ! j)"
  by (simp add: upd_at_def)

lemma emit_fields [simp]:
  "streams (emit a s) = streams s" "servers (emit a s) = servers s"
  "children (emit a s) = children s" "sockets (emit a s) = sockets s"
  "trace (emit a s) = trace s @ [a]"
  by (simp_all add: emit_def)

lemma kill_fields [simp]:
  "streams (kill pid s) = streams s" "servers (kill pid s) = servers s"
  "sockets (kill pid s) = sockets s" "trace (kill pid s) = trace s @ [Kill pid]"
  "children (kill pid s) = upd_at pid (\<lambda>c. c\<lparr>status := (if status c = Running then Terminating else status c)\<rparr>) (children s)"
  by (simp_all add: kill_def)

lemma wss_close_fields [simp]:
  "streams (wss_close w s) = streams s" "children (wss_close w s) = children s"
  "sockets (wss_close w s) = sockets s" "trace (wss_close w s) = trace s @ [WssClose w]"
  "servers (wss_close w s) = upd_at w (\<lambda>w. w\<lparr>closed := True\<rparr>) (servers s)"
  by (simp_all add: wss_close_def)

lemma streams_set_fields [simp]:
  "streams (streams_set p v s) = AList.update p v (streams s)"
  "servers (streams_set p v s) = servers s" "children (streams_set p v s) = children s"
  "sockets (streams_set p v s) = sockets s" "trace (streams_set p v s) = trace s @ [RegistrySet p]"
  by (simp_all add: streams_set_def)

lemma streams_delete_fields [simp]:
  "streams (streams_delete p s) = AList.delete p (streams s)"
  "servers (streams_delete p s) = servers s" "children (streams_delete p s) = children s"
  "sockets (streams_delete p s) = sockets s" "trace (streams_delete p s) = trace s @ [RegistryDelete p]"
  by (simp_all add: streams_delete_def)

lemma stop_absent: "streams_get s K = None \<Longrightarrow> stopStream s K = (s, Failure (NoStreamFound K))"
  by (simp add: stopStream_def)

lemma stop_present:
  "streams_get s K = Some info \<Longrightarrow>
   stopStream s K = (streams_delete K (wss_close (wss info) (kill (ffmpeg info) s)), StopOk (StreamStopped K) K)"
  by (simp add: stopStream_def)

lemma streams_get_after_stop [simp]: "streams_get (fst (stopStream s K)) K = None"
  by (cases "streams_get s K") (simp_all add: stop_absent stop_present, simp_all add: streams_get_def AList.delete_conv')

lemma stop_twice: "stopStream (fst (stopStream s K)) K = (fst (stopStream s K), Failure (NoStreamFound K))"
  by (rule stop_absent) simp

subsection \<open>The entries of the table\<close>

lemma reg_ok_init: "reg_ok init"
  by (simp add: reg_ok_def init_def)

lemma reg_ok_emit [simp]: "reg_ok (emit a s) = reg_ok s"
  by (simp add: reg_ok_def)

lemma reg_ok_kill: "reg_ok s \<Longrightarrow> reg_ok (kill pid s)"
  by (fastforce simp: reg_ok_def nth_upd_at)

lemma reg_ok_wss_close: "reg_ok s \<Longrightarrow> reg_ok (wss_close w s)"
  by (fastforce simp: reg_ok_def nth_upd_at)

lemma set_delete_subset: "set (AList.delete k al) \<subseteq> set al"
  by (auto simp: AList.delete_eq)

lemma reg_ok_delete: "reg_ok s \<Longrightarrow> reg_ok (streams_delete K s)"
  using set_delete_subset [of K "streams s"] by (fastforce simp: reg_ok_def)

lemma reg_ok_stop: "reg_ok s \<Longrightarrow> reg_ok (fst (stopStream s K))"
  by (cases "streams_get s K")
     (simp_all add: stop_absent stop_present reg_ok_delete reg_ok_wss_close reg_ok_kill)

lemma set_update_subset: "set (AList.update k v al) \<subseteq> insert (k, v) (set al)"
  by (induction al) auto

lemma start_bind_throws:
  "startStream (BindThrows m) so s u K = (emit (Console (LogStarting u K)) s, Inl m)"
  by (simp add: startStream_def)

lemma start_spawn_throws:
  "startStream BindListens (SpawnThrows m) s u K =
     (s\<lparr>servers := servers s @ [new_server K],
        trace := trace s @ [Console (LogStarting u K), Listen (length (servers s)) K]\<rparr>, Inl m)"
  by (simp add: startStream_def Let_def emit_def new_server_def)

lemma start_ok:
  "\<not> spawn_throws so \<Longrightarrow> startStream BindListens so s u K =
     (s\<lparr>streams := AList.update K (new_info s u) (streams s),
        servers := servers s @ [new_server K],
        children := children s @ [new_child so s K],
        trace := trace s @ [Console (LogStarting u K), Listen (length (servers s)) K,
                            Spawn (length (children s)) u, RegistrySet K]\<rparr>,
      Inr (StartOk (StreamStarted K) (WsUrl K) K))"
  by (cases so) (simp_all add: startStream_def Let_def emit_def streams_set_def new_server_def new_child_def new_info_def)

lemma reg_ok_start: "reg_ok s \<Longrightarrow> reg_ok (fst (startStream bo so s u K))"
proof (cases bo)
  case (BindThrows m)
  assume "reg_ok s" then show ?thesis by (simp add: BindThrows start_bind_throws)
next
  case BindListens
  assume r: "reg_ok s"
  show ?thesis
  proof (cases "spawn_throws so")
    case True
    then obtain m where "so = SpawnThrows m" by (cases so) auto
    with r show ?thesis
      by (fastforce simp: BindListens start_spawn_throws reg_ok_def nth_append)
  next
    case False
    show ?thesis
      using r set_update_subset [of K "new_info s u" "streams s"]
      by (fastforce simp: BindListens start_ok [OF False] reg_ok_def nth_append new_info_def new_child_def new_server_def)
  qed
qed

lemma accept_fields [simp]:
  "streams (accept w s) = streams s" "children (accept w s) = children s"
  "trace (accept w s) = trace s"
  "sockets (accept w s) = sockets s @ [\<lparr>swss = w, readyState = 1, sent = []\<rparr>]"
  "servers (accept w s) = upd_at w (\<lambda>v. v\<lparr>clients := clients v @ [length (sockets s)]\<rparr>) (servers s)"
  by (simp_all add: accept_def)

lemma drop_client_fields [simp]:
  "streams (drop_client c s) = streams s" "children (drop_client c s) = children s"
  "trace (drop_client c s) = trace s"
  "sockets (drop_client c s) = upd_at c (\<lambda>k. k\<lparr>readyState := 3\<rparr>) (sockets s)"
  "servers (drop_client c s) =
     upd_at (swss (sockets s ! c)) (\<lambda>w. w\<lparr>clients := removeAll c (clients w)\<rparr>) (servers s)"
  by (simp_all add: drop_client_def)

lemma stdout_fields [simp]:
  "streams (ffmpeg_stdout_on_data s pid w d) = streams s"
  "servers (ffmpeg_stdout_on_data s pid w d) = servers s"
  "trace (ffmpeg_stdout_on_data s pid w d) = trace s"
  "children (ffmpeg_stdout_on_data s pid w d) =
     upd_at pid (\<lambda>c. c\<lparr>local_totalBytes := local_totalBytes c + length d\<rparr>) (children s)"
  "sockets (ffmpeg_stdout_on_data s pid w d) =
     (if w < length (servers s) then broadcast d (clients (servers s ! w)) (sockets s) else sockets s)"
  by (simp_all add: ffmpeg_stdout_on_data_def Let_def)

lemma map_upd_at: "(\<And>x. f (g x) = f x) \<Longrightarrow> map f (upd_at i g xs) = map f xs"
  by (auto simp: upd_at_def list_eq_iff_nth_eq nth_list_update)

lemma reg_ok_frame:
  assumes "reg_ok s" "set (streams s') \<subseteq> set (streams s)"
    "map wport (servers s') = map wport (servers s)"
    "map cport (children s') = map cport (children s)"
    "map cwss (children s') = map cwss (children s)"
  shows "reg_ok s'"
proof -
  have ls: "length (servers s') = length (servers s)" and lc: "length (children s') = length (children s)"
    using assms(3,4) by (auto dest: map_eq_imp_length_eq)
  have w: "\<And>i. i < length (servers s) \<Longrightarrow> wport (servers s' ! i) = wport (servers s ! i)"
    using assms(3) ls by (metis nth_map)
  have c: "\<And>i. i < length (children s) \<Longrightarrow> cport (children s' ! i) = cport (children s ! i)"
    using assms(4) lc by (metis nth_map)
  have cw: "\<And>i. i < length (children s) \<Longrightarrow> cwss (children s' ! i) = cwss (children s ! i)"
    using assms(5) lc by (metis nth_map)
  show ?thesis
    using assms(1,2) by (fastforce simp: reg_ok_def ls lc w c cw)
qed

lemma stop_cwss: "map cwss (children (fst (stopStream s K))) = map cwss (children s)"
  by (cases "streams_get s K") (simp_all add: stop_absent stop_present map_upd_at)

lemma http_start_state:
  "fst (http_start bo so s body) =
     (case body of BadStartBody m \<Rightarrow> s
      | StartBody u K \<Rightarrow> if streams_has s K then s else fst (startStream bo so s u K))"
  by (simp add: http_start_def split: start_body.splits prod.splits sum.splits)

lemma http_stop_state:
  "fst (http_stop s body) = (case body of BadStopBody m \<Rightarrow> s | StopBody K \<Rightarrow> fst (stopStream s K))"
  by (simp add: http_stop_def split: stop_body.splits prod.splits)

lemma reg_ok_step: "reg_ok s \<Longrightarrow> reg_ok (step s e)"
proof (cases e)
  case (HttpStart body bo so)
  assume "reg_ok s" then show ?thesis
    by (simp add: HttpStart step_def http_start_state reg_ok_start split: start_body.splits)
next
  case (HttpStop body)
  assume "reg_ok s" then show ?thesis
    by (simp add: HttpStop step_def http_stop_state reg_ok_stop split: stop_body.splits)
next
  case HttpStreams
  assume "reg_ok s" then show ?thesis by (simp add: HttpStreams step_def)
next
  case (StdoutData pid d)
  assume "reg_ok s" then show ?thesis
    by (auto simp: StdoutData step_def map_upd_at intro!: reg_ok_frame [of s])
next
  case (StderrData pid m)
  assume "reg_ok s" then show ?thesis
    by (simp add: StderrData step_def ffmpeg_stderr_on_data_def)
next
  case (ChildClose pid code)
  assume r: "reg_ok s"
  have "reg_ok (s\<lparr>children := upd_at pid (\<lambda>c. c\<lparr>status := Exited\<rparr>) (children s)\<rparr>)"
    by (rule reg_ok_frame [OF r]) (simp_all add: map_upd_at)
  with r show ?thesis
    by (simp add: ChildClose step_def ffmpeg_on_close_def reg_ok_stop)
next
  case (ChildError pid err)
  assume r: "reg_ok s"
  then show ?thesis
    by (simp add: ChildError step_def ffmpeg_on_error_def reg_ok_stop)
next
  case (WsConnect w)
  assume r: "reg_ok s" show ?thesis
    by (auto simp: WsConnect step_def wss_on_connection_def map_upd_at intro!: reg_ok_frame [OF r])
next
  case (WsClosing c)
  assume r: "reg_ok s" show ?thesis
    by (auto simp: WsClosing step_def map_upd_at intro!: reg_ok_frame [OF r])
next
  case (WsClose c)
  assume r: "reg_ok s" show ?thesis
    by (auto simp: WsClose step_def ws_on_close_def map_upd_at intro!: reg_ok_frame [OF r])
qed

subsection \<open>Runs\<close>

lemma run_Nil [simp]: "run s [] = s"
  by (simp add: run_def)

lemma run_Cons [simp]: "run s (e # es) = run (step s e) es"
  by (simp add: run_def)

lemma run_append: "run s (es @ es') = run (run s es) es'"
  by (simp add: run_def)

lemma reg_ok_run: "reg_ok s \<Longrightarrow> reg_ok (run s es)"
  by (induction es arbitrary: s) (simp_all add: reg_ok_step)

lemmas eval_defs =
  run_def step_def init_def http_start_def http_stop_def http_streams_def startStream_def stopStream_def
  streams_has_def streams_get_def streams_set_def streams_delete_def emit_def kill_def wss_close_def
  upd_at_def accept_def drop_client_def wss_on_connection_def ws_on_close_def
  ffmpeg_stdout_on_data_def ffmpeg_stderr_on_data_def ffmpeg_on_close_def ffmpeg_on_error_def
  broadcast_def send_if_open_def Let_def new_info_def

lemma update_absent: "map_of al k = None \<Longrightarrow> AList.update k v al = al @ [(k, v)]"
  by (induction al) (auto split: if_splits)

lemma http_start_has:
  "streams_has s K \<Longrightarrow> http_start bo so s (StartBody u K) = (s, (400, Failure (PortInUse K)))"
  by (simp add: http_start_def)

lemma http_start_ok:
  "\<not> streams_has s K \<Longrightarrow> \<not> spawn_throws so \<Longrightarrow>
   http_start BindListens so s (StartBody u K) =
     (fst (startStream BindListens so s u K), (200, StartOk (StreamStarted K) (WsUrl K) K))"
  by (simp add: http_start_def start_ok)

lemma streams_has_emit [simp]: "streams_has (emit a s) K = streams_has s K"
  by (simp add: streams_has_def)

lemma streams_get_emit [simp]: "streams_get (emit a s) K = streams_get s K"
  by (simp add: streams_get_def)

subsection \<open>Sending a chunk to the clients\<close>

lemma send_if_open_length [simp]: "length (send_if_open d socks c) = length socks"
  by (simp add: send_if_open_def)

lemma broadcast_Nil [simp]: "broadcast d [] socks = socks"
  by (simp add: broadcast_def)

lemma broadcast_Cons [simp]: "broadcast d (c # cs) socks = broadcast d cs (send_if_open d socks c)"
  by (simp add: broadcast_def)

lemma broadcast_length [simp]: "length (broadcast d cs socks) = length socks"
  by (induction cs arbitrary: socks) simp_all

lemma send_if_open_nth:
  "j < length socks \<Longrightarrow> send_if_open d socks c ! j =
     (if j = c \<and> readyState (socks ! j) = 1 then (socks ! j)\<lparr>sent := sent (socks ! j) @ [d]\<rparr>
      else socks ! j)"
  by (simp add: send_if_open_def nth_upd_at)

lemma broadcast_other: "c \<notin> set cs \<Longrightarrow> c < length socks \<Longrightarrow> broadcast d cs socks ! c = socks ! c"
  by (induction cs arbitrary: socks) (auto simp: send_if_open_nth)

lemma broadcast_swss: "c < length socks \<Longrightarrow> swss (broadcast d cs socks ! c) = swss (socks ! c)"
  by (induction cs arbitrary: socks) (auto simp: send_if_open_nth)

lemma broadcast_readyState:
  "c < length socks \<Longrightarrow> readyState (broadcast d cs socks ! c) = readyState (socks ! c)"
  by (induction cs arbitrary: socks) (auto simp: send_if_open_nth)

lemma broadcast_member:
  "distinct cs \<Longrightarrow> c \<in> set cs \<Longrightarrow> c < length socks \<Longrightarrow> readyState (socks ! c) = 1 \<Longrightarrow>
   sent (broadcast d cs socks ! c) = sent (socks ! c) @ [d]"
proof (induction cs arbitrary: socks)
  case Nil
  then show ?case by simp
next
  case (Cons x cs)
  show ?case
  proof (cases "x = c")
    case True
    with Cons.prems have "c \<notin> set cs" by simp
    then show ?thesis
      using Cons.prems True by (simp add: broadcast_other send_if_open_nth)
  next
    case False
    with Cons.prems have "c \<in> set cs" "distinct cs" by simp_all
    then show ?thesis
      using Cons.IH [of "send_if_open d socks x"] Cons.prems False
      by (simp add: send_if_open_nth)
  qed
qed

subsection \<open>The clients of a server\<close>

lemma stop_sockets [simp]: "sockets (fst (stopStream s K)) = sockets s"
  by (cases "streams_get s K") (simp_all add: stop_absent stop_present)

lemma stop_servers_length [simp]: "length (servers (fst (stopStream s K))) = length (servers s)"
  by (cases "streams_get s K") (simp_all add: stop_absent stop_present)

lemma stop_clients:
  "w < length (servers s) \<Longrightarrow> clients (servers (fst (stopStream s K)) ! w) = clients (servers s ! w)"
  by (cases "streams_get s K") (simp_all add: stop_absent stop_present nth_upd_at)

lemma start_sockets [simp]: "sockets (fst (startStream bo so s u K)) = sockets s"
  by (cases bo; cases so) (simp_all add: start_bind_throws start_spawn_throws start_ok)

lemma start_servers:
  "servers (fst (startStream bo so s u K)) = servers s \<or>
   servers (fst (startStream bo so s u K)) = servers s @ [new_server K]"
  by (cases bo; cases so) (simp_all add: start_bind_throws start_spawn_throws start_ok)

lemma clients_ok_init: "clients_ok init"
  by (simp add: clients_ok_def init_def)

lemma clients_ok_start: "clients_ok s \<Longrightarrow> clients_ok (fst (startStream bo so s u K))"
  using start_servers [of bo so s u K]
  by (auto simp: clients_ok_def nth_append new_server_def less_Suc_eq)

lemma clients_ok_stop: "clients_ok s \<Longrightarrow> clients_ok (fst (stopStream s K))"
  by (simp add: clients_ok_def stop_clients)

lemma clients_ok_emit [simp]: "clients_ok (emit a s) = clients_ok s"
  by (simp add: clients_ok_def)

lemma clients_ok_children [simp]: "clients_ok (s\<lparr>children := cs\<rparr>) = clients_ok s"
  by (simp add: clients_ok_def)

lemma clients_ok_accept: "clients_ok s \<Longrightarrow> clients_ok (accept w s)"
  by (fastforce simp: clients_ok_def nth_upd_at nth_append)

lemma clients_ok_drop: "clients_ok s \<Longrightarrow> clients_ok (drop_client c s)"
  by (fastforce simp: clients_ok_def nth_upd_at distinct_removeAll)

lemma clients_ok_stdout: "clients_ok s \<Longrightarrow> clients_ok (ffmpeg_stdout_on_data s pid w d)"
  by (simp add: clients_ok_def broadcast_swss)

lemma clients_ok_step: "clients_ok s \<Longrightarrow> clients_ok (step s e)"
  by (cases e)
     (auto simp: step_def http_start_state http_stop_state clients_ok_start clients_ok_stop
        clients_ok_stdout ffmpeg_stderr_on_data_def ffmpeg_on_close_def ffmpeg_on_error_def
        wss_on_connection_def ws_on_close_def clients_ok_accept clients_ok_drop
        split: start_body.splits stop_body.splits,
      auto simp: clients_ok_def nth_upd_at)

lemma clients_ok_run: "clients_ok s \<Longrightarrow> clients_ok (run s es)"
  by (induction es arbitrary: s) (simp_all add: clients_ok_step)

subsection \<open>What an open client is sent\<close>

lemma viewer_emit [simp]: "viewer (emit a s) w c = viewer s w c"
  by (simp add: viewer_def)

lemma viewer_children [simp]: "viewer (s\<lparr>children := cs\<rparr>) w c = viewer s w c"
  by (simp add: viewer_def)

lemma viewer_start: "viewer s w c \<Longrightarrow> viewer (fst (startStream bo so s u K)) w c"
  using start_servers [of bo so s u K] by (auto simp: viewer_def nth_append)

lemma viewer_stop: "viewer s w c \<Longrightarrow> viewer (fst (stopStream s K)) w c"
  by (simp add: viewer_def stop_clients)

lemma viewer_accept: "viewer s w c \<Longrightarrow> viewer (accept w' s) w c"
  by (auto simp: viewer_def nth_upd_at nth_append)

lemma viewer_drop: "viewer s w c \<Longrightarrow> c' \<noteq> c \<Longrightarrow> viewer (drop_client c' s) w c"
  by (auto simp: viewer_def nth_upd_at)

lemma viewer_stdout: "viewer s w c \<Longrightarrow> viewer (ffmpeg_stdout_on_data s pid w' d) w c"
  by (simp add: viewer_def broadcast_readyState)

lemma sent_stdout:
  assumes "clients_ok s" "viewer s w c"
  shows "sent (sockets (ffmpeg_stdout_on_data s pid w' d) ! c) =
           sent (sockets s ! c) @ (if w' = w then [d] else [])"
proof (cases "w' = w")
  case True
  with assms show ?thesis
    by (simp add: viewer_def clients_ok_def broadcast_member)
next
  case False
  have "c \<notin> set (clients (servers s ! w'))" if lt: "w' < length (servers s)"
  proof
    assume mem: "c \<in> set (clients (servers s ! w'))"
    from assms(1) lt mem have "swss (sockets s ! c) = w'"
      by (simp add: clients_ok_def)
    moreover from assms have "swss (sockets s ! c) = w"
      by (simp add: viewer_def clients_ok_def)
    ultimately show False using False by simp
  qed
  with assms False show ?thesis
    by (simp add: viewer_def broadcast_other)
qed

lemma viewer_step:
  assumes "viewer s w c" "e \<noteq> WsClose c" "e \<noteq> WsClosing c"
  shows "viewer (step s e) w c"
proof (cases e)
  case (WsClosing c')
  with assms show ?thesis by (auto simp: step_def viewer_def nth_upd_at)
next
  case (WsClose c')
  with assms show ?thesis by (auto simp: step_def ws_on_close_def viewer_drop)
qed (use assms in \<open>auto simp: step_def http_start_state http_stop_state viewer_start viewer_stop
        viewer_stdout ffmpeg_stderr_on_data_def ffmpeg_on_close_def ffmpeg_on_error_def
        wss_on_connection_def viewer_accept split: start_body.splits stop_body.splits\<close>)

lemma sent_step:
  assumes "clients_ok s" "viewer s w c" "e \<noteq> WsClose c" "e \<noteq> WsClosing c"
  shows "sent (sockets (step s e) ! c) = sent (sockets s ! c) @ stdout_for s w e"
proof (cases e)
  case (StdoutData pid d)
  show ?thesis
    using sent_stdout [OF assms(1,2), of pid "cwss (children s ! pid)" d] assms(2)
    by (auto simp: StdoutData step_def viewer_def split: if_splits)
next
  case (WsConnect w')
  with assms show ?thesis by (auto simp: step_def wss_on_connection_def viewer_def nth_append)
next
  case (WsClosing c')
  with assms show ?thesis by (auto simp: step_def viewer_def nth_upd_at)
next
  case (WsClose c')
  with assms show ?thesis by (auto simp: step_def ws_on_close_def viewer_def nth_upd_at)
qed (auto simp: step_def http_start_state http_stop_state
        ffmpeg_stderr_on_data_def ffmpeg_on_close_def ffmpeg_on_error_def
        split: start_body.splits stop_body.splits)

lemma start_grows:
  "(map cwss (children (fst (startStream bo so s u K))) = map cwss (children s) \<and>
      length (servers s) \<le> length (servers (fst (startStream bo so s u K)))) \<or>
   (map cwss (children (fst (startStream bo so s u K))) = map cwss (children s) @ [length (servers s)] \<and>
      length (servers (fst (startStream bo so s u K))) = Suc (length (servers s)))"
  by (cases bo; cases so) (simp_all add: start_bind_throws start_spawn_throws start_ok new_child_def)

lemma cwss_step:
  "(map cwss (children (step s e)) = map cwss (children s) \<and>
      length (servers s) \<le> length (servers (step s e))) \<or>
   (map cwss (children (step s e)) = map cwss (children s) @ [length (servers s)] \<and>
      length (servers (step s e)) = Suc (length (servers s)))"
proof (cases e)
  case (HttpStart body bo so)
  then show ?thesis
    using start_grows by (cases body) (simp_all add: step_def http_start_state)
next
  case (HttpStop body)
  then show ?thesis
    by (cases body) (simp_all add: step_def http_stop_state stop_cwss)
next
  case (ChildClose pid code)
  then show ?thesis
    by (simp add: step_def ffmpeg_on_close_def stop_cwss map_upd_at)
next
  case (ChildError pid err)
  then show ?thesis
    by (simp add: step_def ffmpeg_on_error_def stop_cwss)
qed (simp_all add: step_def map_upd_at ffmpeg_stderr_on_data_def wss_on_connection_def ws_on_close_def)

lemma map_eq_nth:
  assumes "map f xs = map f ys"
  shows "length xs = length ys" "i < length ys \<Longrightarrow> f (xs ! i) = f (ys ! i)"
proof -
  show l: "length xs = length ys"
    using assms by (rule map_eq_imp_length_eq)
  assume i: "i < length ys"
  have "map f xs ! i = map f ys ! i"
    by (simp only: assms)
  with i l show "f (xs ! i) = f (ys ! i)"
    by simp
qed

lemma map_eq_snoc_nth:
  assumes "map f xs = map f ys @ [v]"
  shows "length xs = Suc (length ys)" "i < length ys \<Longrightarrow> f (xs ! i) = f (ys ! i)"
    "f (xs ! length ys) = v"
proof -
  have "length (map f xs) = length (map f ys @ [v])"
    by (simp only: assms)
  then show l: "length xs = Suc (length ys)"
    by simp
  have n: "map f xs ! j = (map f ys @ [v]) ! j" for j
    by (simp only: assms)
  from n [of "length ys"] l show "f (xs ! length ys) = v"
    by (simp add: nth_append)
  assume i: "i < length ys"
  with n [of i] l show "f (xs ! i) = f (ys ! i)"
    by (simp add: nth_append)
qed

lemma children_ok_init: "children_ok init"
  by (simp add: children_ok_def init_def)

lemma children_ok_step:
  assumes "children_ok s"
  shows "children_ok (step s e)"
  using cwss_step [of s e]
proof (elim disjE conjE)
  assume m: "map cwss (children (step s e)) = map cwss (children s)"
    and l: "length (servers s) \<le> length (servers (step s e))"
  have "x < length (servers (step s e))" if "x \<in> set (map cwss (children s))" for x
    using assms that l unfolding children_ok_def by (meson less_le_trans)
  then show ?thesis
    unfolding children_ok_def m by blast
next
  assume m: "map cwss (children (step s e)) = map cwss (children s) @ [length (servers s)]"
    and l: "length (servers (step s e)) = Suc (length (servers s))"
  have "x < length (servers (step s e))" if "x \<in> set (map cwss (children s) @ [length (servers s)])" for x
  proof (cases "x = length (servers s)")
    case True
    with l show ?thesis by simp
  next
    case False
    with that have "x \<in> set (map cwss (children s))" by simp
    with assms have "x < length (servers s)" unfolding children_ok_def by blast
    with l show ?thesis by simp
  qed
  then show ?thesis
    unfolding children_ok_def m by blast
qed

lemma children_ok_run: "children_ok s \<Longrightarrow> children_ok (run s es)"
  by (induction es arbitrary: s) (simp_all add: children_ok_step)

lemma attached_step:
  assumes "children_ok s" "w < length (servers s)"
  shows "(pid < length (children (step s e)) \<and> cwss (children (step s e) ! pid) = w) =
         (pid < length (children s) \<and> cwss (children s ! pid) = w)"
  using cwss_step [of s e]
proof (elim disjE conjE)
  assume m: "map cwss (children (step s e)) = map cwss (children s)"
  note f = map_eq_nth [OF m]
  show ?thesis
  proof (cases "pid < length (children s)")
    case True
    with f(2) [of pid] f(1) show ?thesis by simp
  next
    case False
    with f(1) show ?thesis by simp
  qed
next
  assume m: "map cwss (children (step s e)) = map cwss (children s) @ [length (servers s)]"
  note f = map_eq_snoc_nth [OF m]
  consider "pid < length (children s)" | "pid = length (children s)" | "length (children s) < pid"
    by linarith
  then show ?thesis
  proof cases
    case 1
    with f(2) [of pid] f(1) show ?thesis by simp
  next
    case 2
    with f(3) f(1) assms(2) show ?thesis by simp
  next
    case 3
    with f(1) show ?thesis by simp
  qed
qed

lemma stdout_for_step:
  assumes "children_ok s" "w < length (servers s)"
  shows "stdout_for (step s e) w = stdout_for s w"
proof
  fix e'
  show "stdout_for (step s e) w e' = stdout_for s w e'"
    by (cases e') (simp_all add: attached_step [OF assms])
qed

lemma chunks_of_step:
  "children_ok s \<Longrightarrow> w < length (servers s) \<Longrightarrow> chunks_of (step s e) w es = chunks_of s w es"
  by (simp add: chunks_of_def stdout_for_step)

lemma chunks_of_Cons: "chunks_of s w (e # es) = stdout_for s w e @ chunks_of s w es"
  by (simp add: chunks_of_def)

lemma keeps_open_Cons:
  "keeps_open c (e # es) = (e \<noteq> WsClose c \<and> e \<noteq> WsClosing c \<and> keeps_open c es)"
  by (simp add: keeps_open_def)

lemma sent_run:
  "clients_ok s \<Longrightarrow> children_ok s \<Longrightarrow> viewer s w c \<Longrightarrow> keeps_open c es \<Longrightarrow>
   viewer (run s es) w c \<and> sent (sockets (run s es) ! c) = sent (sockets s ! c) @ chunks_of s w es"
proof (induction es arbitrary: s)
  case Nil
  then show ?case by (simp add: chunks_of_def)
next
  case (Cons e es)
  from Cons.prems have e: "e \<noteq> WsClose c" "e \<noteq> WsClosing c" and k: "keeps_open c es"
    by (simp_all add: keeps_open_Cons)
  have v: "viewer (step s e) w c"
    using Cons.prems(3) e by (rule viewer_step)
  have c: "clients_ok (step s e)"
    using Cons.prems(1) by (rule clients_ok_step)
  have h: "children_ok (step s e)"
    using Cons.prems(2) by (rule children_ok_step)
  have w: "w < length (servers s)"
    using Cons.prems(3) by (simp add: viewer_def)
  have s1: "sent (sockets (step s e) ! c) = sent (sockets s ! c) @ stdout_for s w e"
    using Cons.prems(1,3) e by (rule sent_step)
  from Cons.IH [OF c h v k] s1 show ?case
    by (simp add: chunks_of_Cons chunks_of_step [OF Cons.prems(2) w])
qed

subsection \<open>Running children and open listeners\<close>

lemma running_reg_init: "running_reg init"
  by (simp add: running_reg_def init_def)

lemma open_reg_init: "open_reg init"
  by (simp add: open_reg_def init_def)

lemma running_reg_emit [simp]: "running_reg (emit a s) = running_reg s"
  by (simp add: running_reg_def)

lemma open_reg_emit [simp]: "open_reg (emit a s) = open_reg s"
  by (simp add: open_reg_def)

lemma running_reg_servers [simp]: "running_reg (s\<lparr>servers := ws\<rparr>) = running_reg s"
  by (simp add: running_reg_def)

lemma running_reg_sockets [simp]: "running_reg (s\<lparr>sockets := ks\<rparr>) = running_reg s"
  by (simp add: running_reg_def)

lemma open_reg_children [simp]: "open_reg (s\<lparr>children := cs\<rparr>) = open_reg s"
  by (simp add: open_reg_def)

lemma open_reg_sockets [simp]: "open_reg (s\<lparr>sockets := ks\<rparr>) = open_reg s"
  by (simp add: open_reg_def)

lemma open_reg_cong: "streams s' = streams s \<Longrightarrow> servers s' = servers s \<Longrightarrow> open_reg s' = open_reg s"
  by (simp add: open_reg_def)

lemma running_reg_children_upd:
  assumes "running_reg s" "\<And>c. cport (f c) = cport c" "\<And>c. status (f c) = Running \<Longrightarrow> status c = Running"
  shows "running_reg (s\<lparr>children := upd_at p f (children s)\<rparr>)"
  using assms by (auto simp: running_reg_def nth_upd_at split: if_splits)

lemma open_reg_servers_upd:
  assumes "open_reg s" "\<And>v. wport (f v) = wport v" "\<And>v. \<not> closed (f v) \<Longrightarrow> \<not> closed v"
  shows "open_reg (s\<lparr>servers := upd_at w f (servers s)\<rparr>)"
  using assms by (auto simp: open_reg_def nth_upd_at split: if_splits)

lemma running_reg_stop: "running_reg s \<Longrightarrow> running_reg (fst (stopStream s K))"
proof (cases "streams_get s K")
  case None
  assume "running_reg s" with None show ?thesis by (simp add: stop_absent)
next
  case (Some info)
  assume r: "running_reg s"
  show ?thesis
    unfolding running_reg_def
  proof (intro allI impI)
    fix p
    assume p: "p < length (children (fst (stopStream s K)))"
      and run: "status (children (fst (stopStream s K)) ! p) = Running"
    from p have pl: "p < length (children s)"
      by (simp add: stop_present [OF Some])
    from run pl have ne: "p \<noteq> ffmpeg info" and st: "status (children s ! p) = Running"
      by (auto simp: stop_present [OF Some] nth_upd_at split: if_splits)
    from r pl st obtain info' where
      i: "map_of (streams s) (cport (children s ! p)) = Some info'" "ffmpeg info' = p"
      by (auto simp: running_reg_def)
    with ne Some have k: "cport (children s ! p) \<noteq> K"
      by (auto simp: streams_get_def)
    have "cport (children (fst (stopStream s K)) ! p) = cport (children s ! p)"
      using pl by (simp add: stop_present [OF Some] nth_upd_at)
    with i k show "\<exists>info. map_of (streams (fst (stopStream s K)))
              (cport (children (fst (stopStream s K)) ! p)) = Some info \<and> ffmpeg info = p"
      by (simp add: stop_present [OF Some])
  qed
qed

lemma open_reg_stop: "open_reg s \<Longrightarrow> open_reg (fst (stopStream s K))"
proof (cases "streams_get s K")
  case None
  assume "open_reg s" with None show ?thesis by (simp add: stop_absent)
next
  case (Some info)
  assume r: "open_reg s"
  show ?thesis
    unfolding open_reg_def
  proof (intro allI impI)
    fix w
    assume w: "w < length (servers (fst (stopStream s K)))"
      and op: "\<not> closed (servers (fst (stopStream s K)) ! w)"
    from w have wl: "w < length (servers s)"
      by simp
    from op wl have ne: "w \<noteq> wss info" and st: "\<not> closed (servers s ! w)"
      by (auto simp: stop_present [OF Some] nth_upd_at split: if_splits)
    from r wl st obtain info' where
      i: "map_of (streams s) (wport (servers s ! w)) = Some info'" "wss info' = w"
      by (auto simp: open_reg_def)
    with ne Some have k: "wport (servers s ! w) \<noteq> K"
      by (auto simp: streams_get_def)
    have "wport (servers (fst (stopStream s K)) ! w) = wport (servers s ! w)"
      using wl by (simp add: stop_present [OF Some] nth_upd_at)
    with i k show "\<exists>info. map_of (streams (fst (stopStream s K)))
              (wport (servers (fst (stopStream s K)) ! w)) = Some info \<and> wss info = w"
      by (simp add: stop_present [OF Some])
  qed
qed

lemma running_reg_start:
  assumes "running_reg s" "\<not> streams_has s K"
  shows "running_reg (fst (startStream bo so s u K))"
proof (cases bo)
  case (BindThrows m)
  with assms show ?thesis by (simp add: start_bind_throws)
next
  case BindListens
  show ?thesis
  proof (cases "spawn_throws so")
    case True
    then obtain m where "so = SpawnThrows m" by (cases so) auto
    with assms BindListens show ?thesis
      by (simp add: start_spawn_throws running_reg_def)
  next
    case False
    have old: "\<And>p. p < length (children s) \<Longrightarrow> status (children s ! p) = Running \<Longrightarrow>
        cport (children s ! p) \<noteq> K"
      using assms by (auto simp: running_reg_def streams_has_def)
    show ?thesis
      using assms(1) old
      by (auto simp: BindListens start_ok [OF False] running_reg_def nth_append less_Suc_eq
            AList.update_conv' new_child_def new_info_def)
  qed
qed

lemma open_reg_start:
  assumes "open_reg s" "\<not> streams_has s K" "\<not> spawn_throws so"
  shows "open_reg (fst (startStream bo so s u K))"
proof (cases bo)
  case (BindThrows m)
  with assms show ?thesis by (simp add: start_bind_throws)
next
  case BindListens
  have old: "\<And>w. w < length (servers s) \<Longrightarrow> \<not> closed (servers s ! w) \<Longrightarrow>
      wport (servers s ! w) \<noteq> K"
    using assms by (auto simp: open_reg_def streams_has_def)
  show ?thesis
    using assms(1) old
    by (auto simp: BindListens start_ok [OF assms(3)] open_reg_def nth_append less_Suc_eq
          AList.update_conv' new_server_def new_info_def)
qed

lemma running_reg_step: "running_reg s \<Longrightarrow> running_reg (step s e)"
proof (cases e)
  case (HttpStart body bo so)
  assume "running_reg s" then show ?thesis
    by (cases body) (simp_all add: HttpStart step_def http_start_state running_reg_start)
next
  case (HttpStop body)
  assume "running_reg s" then show ?thesis
    by (cases body) (simp_all add: HttpStop step_def http_stop_state running_reg_stop)
next
  case (StdoutData pid d)
  assume r: "running_reg s"
  have "running_reg (ffmpeg_stdout_on_data s pid w d)" for w
    using running_reg_children_upd [OF r, of "\<lambda>c. c\<lparr>local_totalBytes := local_totalBytes c + length d\<rparr>" pid]
    by (simp add: ffmpeg_stdout_on_data_def Let_def)
  with r show ?thesis by (simp add: StdoutData step_def)
next
  case (ChildClose pid code)
  assume r: "running_reg s"
  have "running_reg (s\<lparr>children := upd_at pid (\<lambda>c. c\<lparr>status := Exited\<rparr>) (children s)\<rparr>)"
    by (rule running_reg_children_upd [OF r]) simp_all
  with r show ?thesis
    by (simp add: ChildClose step_def ffmpeg_on_close_def running_reg_stop)
next
  case (ChildError pid err)
  assume "running_reg s" then show ?thesis
    by (simp add: ChildError step_def ffmpeg_on_error_def running_reg_stop)
next
  case (WsConnect w)
  assume "running_reg s" then show ?thesis
    by (simp add: WsConnect step_def wss_on_connection_def accept_def)
next
  case (WsClose c)
  assume "running_reg s" then show ?thesis
    by (simp add: WsClose step_def ws_on_close_def drop_client_def)
qed (simp_all add: step_def ffmpeg_stderr_on_data_def)

lemma running_reg_run: "running_reg s \<Longrightarrow> running_reg (run s es)"
  by (induction es arbitrary: s) (simp_all add: running_reg_step)

lemma open_reg_step: "open_reg s \<Longrightarrow> \<not> sync_spawn_throw e \<Longrightarrow> open_reg (step s e)"
proof (cases e)
  case (HttpStart body bo so)
  assume "open_reg s" "\<not> sync_spawn_throw e" then show ?thesis
    by (cases body) (simp_all add: HttpStart step_def http_start_state open_reg_start)
next
  case (HttpStop body)
  assume "open_reg s" then show ?thesis
    by (cases body) (simp_all add: HttpStop step_def http_stop_state open_reg_stop)
next
  case (StdoutData pid d)
  assume "open_reg s" then show ?thesis
    by (simp add: StdoutData step_def ffmpeg_stdout_on_data_def Let_def)
next
  case (ChildClose pid code)
  assume "open_reg s" then show ?thesis
    by (simp add: ChildClose step_def ffmpeg_on_close_def open_reg_stop)
next
  case (ChildError pid err)
  assume "open_reg s" then show ?thesis
    by (simp add: ChildError step_def ffmpeg_on_error_def open_reg_stop)
next
  case (WsConnect w)
  assume r: "open_reg s"
  have "open_reg (accept w s) =
      open_reg (s\<lparr>servers := upd_at w (\<lambda>v. v\<lparr>clients := clients v @ [length (sockets s)]\<rparr>) (servers s)\<rparr>)"
    by (rule open_reg_cong) simp_all
  then have "open_reg (accept w s)"
    using open_reg_servers_upd [OF r, of "\<lambda>v. v\<lparr>clients := clients v @ [length (sockets s)]\<rparr>" w]
    by simp
  with r show ?thesis
    by (simp add: WsConnect step_def wss_on_connection_def)
next
  case (WsClose c)
  assume r: "open_reg s"
  have "open_reg (drop_client c s) =
      open_reg (s\<lparr>servers := upd_at (swss (sockets s ! c)) (\<lambda>w. w\<lparr>clients := removeAll c (clients w)\<rparr>) (servers s)\<rparr>)"
    by (rule open_reg_cong) simp_all
  then have "open_reg (drop_client c s)"
    using open_reg_servers_upd [OF r, of "\<lambda>w. w\<lparr>clients := removeAll c (clients w)\<rparr>" "swss (sockets s ! c)"]
    by simp
  with r show ?thesis
    by (simp add: WsClose step_def ws_on_close_def)
qed (simp_all add: step_def ffmpeg_stderr_on_data_def)

lemma open_reg_run: "open_reg s \<Longrightarrow> list_all (\<lambda>e. \<not> sync_spawn_throw e) es \<Longrightarrow> open_reg (run s es)"
  by (induction es arbitrary: s) (simp_all add: open_reg_step)

subsection \<open>Reachable states\<close>

lemma reg_ok_reachable: "reg_ok (run init es)"
  by (rule reg_ok_run [OF reg_ok_init])

lemma registered_ids:
  assumes "streams_get (run init es) K = Some info"
  shows "wss info < length (servers (run init es))" "ffmpeg info < length (children (run init es))"
    "wport (servers (run init es) ! wss info) = K" "cport (children (run init es) ! ffmpeg info) = K"
    "cwss (children (run init es) ! ffmpeg info) = wss info" "totalBytes info = 0"
proof -
  from assms have "(K, info) \<in> set (streams (run init es))"
    by (simp add: streams_get_def map_of_SomeD)
  with reg_ok_reachable [of es]
  show "wss info < length (servers (run init es))" "ffmpeg info < length (children (run init es))"
    "wport (servers (run init es) ! wss info) = K" "cport (children (run init es) ! ffmpeg info) = K"
    "cwss (children (run init es) ! ffmpeg info) = wss info" "totalBytes info = 0"
    by (auto simp: reg_ok_def)
qed

lemma row_ports: "map row_port (http_streams s) = map fst (streams s)"
  by (simp add: http_streams_def case_prod_unfold)

lemma absent_not_listed: "streams_get s K = None \<Longrightarrow> K \<notin> set (map row_port (http_streams s))"
  by (simp add: row_ports streams_get_def map_of_eq_None_iff)

lemma stop_tears_down:
  assumes "streams_get s K = Some info" "wss info < length (servers s)"
    "ffmpeg info < length (children s)"
  shows "torn_down (fst (stopStream s K)) K info"
  using assms absent_not_listed [of "fst (stopStream s K)" K]
  by (simp add: torn_down_def) (simp add: stop_present nth_upd_at)

lemma clients_ok_reachable: "clients_ok (run init es)"
  by (rule clients_ok_run [OF clients_ok_init])

lemma children_ok_reachable: "children_ok (run init es)"
  by (rule children_ok_run [OF children_ok_init])

subsection \<open>The filter of the diagnostics\<close>

lemma starts_with_iff: "starts_with s p = (\<exists>b. s = p @ b)"
  by (induction s p rule: starts_with.induct) auto

lemma js_includes_iff: "js_includes s p = (\<exists>a b. s = a @ p @ b)"
proof (induction s)
  case Nil
  then show ?case by auto
next
  case (Cons c cs)
  show ?case
  proof
    assume "js_includes (c # cs) p"
    then consider "starts_with (c # cs) p" | "js_includes cs p" by auto
    then show "\<exists>a b. c # cs = a @ p @ b"
    proof cases
      case 1
      then obtain b where "c # cs = p @ b" by (auto simp: starts_with_iff)
      then have "c # cs = [] @ p @ b" by simp
      then show ?thesis by blast
    next
      case 2
      with Cons.IH obtain a b where "cs = a @ p @ b" by auto
      then have "c # cs = (c # a) @ p @ b" by simp
      then show ?thesis by blast
    qed
  next
    assume "\<exists>a b. c # cs = a @ p @ b"
    then obtain a b where e: "c # cs = a @ p @ b" by blast
    show "js_includes (c # cs) p"
    proof (cases a)
      case Nil
      with e have "starts_with (c # cs) p" by (auto simp: starts_with_iff)
      then show ?thesis by simp
    next
      case (Cons x a')
      with e have "cs = a' @ p @ b" by simp
      with Cons.IH have "js_includes cs p" by blast
      then show ?thesis by simp
    qed
  qed
qed

lemma stderr_run:
  "foldl (\<lambda>s m. ffmpeg_stderr_on_data s p m) s msgs =
     s\<lparr>trace := trace s @ map (\<lambda>m. Console (LogFFmpeg p (trim m)))
                            (filter (\<lambda>m. \<not> js_includes m ''frame='') msgs)\<rparr>"
  by (induction msgs arbitrary: s) (simp_all add: ffmpeg_stderr_on_data_def emit_def)

subsection \<open>Where a listener is bound\<close>

lemma stop_no_listen: "Listen w P \<notin> set (drop (length (trace s)) (trace (fst (stopStream s K))))"
  by (cases "streams_get s K") (simp_all add: stop_absent stop_present)

lemma stop_trace:
  "\<exists>as. trace (fst (stopStream s K)) = trace s @ as \<and> (\<forall>w P. Listen w P \<notin> set as)"
  by (cases "streams_get s K") (simp_all add: stop_absent stop_present)

lemma start_listen:
  assumes "Listen w P \<in> set (drop (length (trace s)) (trace (fst (startStream bo so s u K))))"
  shows "bo = BindListens \<and> P = K \<and> w = length (servers s)"
proof (cases bo)
  case (BindThrows m)
  with assms show ?thesis by (simp add: start_bind_throws)
next
  case BindListens
  show ?thesis
  proof (cases "spawn_throws so")
    case True
    then obtain m where "so = SpawnThrows m" by (cases so) auto
    with assms BindListens show ?thesis by (simp add: start_spawn_throws)
  next
    case False
    with assms BindListens show ?thesis by (simp add: start_ok)
  qed
qed

lemma step_listen:
  assumes "Listen w P \<in> set (drop (length (trace s)) (trace (step s e)))"
  shows "(\<exists>u so. e = HttpStart (StartBody u P) BindListens so) \<and> \<not> streams_has s P \<and>
         w = length (servers s)"
proof (cases e)
  case (HttpStart body bo so)
  show ?thesis
  proof (cases body)
    case (BadStartBody m)
    with assms HttpStart show ?thesis by (simp add: step_def http_start_state)
  next
    case (StartBody u K)
    show ?thesis
    proof (cases "streams_has s K")
      case True
      with assms HttpStart StartBody show ?thesis by (simp add: step_def http_start_state)
    next
      case False
      with assms HttpStart StartBody
      have "Listen w P \<in> set (drop (length (trace s)) (trace (fst (startStream bo so s u K))))"
        by (simp add: step_def http_start_state)
      from start_listen [OF this] False HttpStart StartBody show ?thesis by simp
    qed
  qed
next
  case (HttpStop body)
  with assms stop_no_listen show ?thesis
    by (cases body) (simp_all add: step_def http_stop_state)
next
  case (ChildClose pid code)
  show ?thesis
  proof (cases "pid < length (children s)")
    case True
    let ?t = "emit (Console (LogExited code))
      (s\<lparr>children := upd_at pid (\<lambda>c. c\<lparr>status := Exited\<rparr>) (children s)\<rparr>)"
    obtain as where "trace (fst (stopStream ?t (cport (children s ! pid)))) = trace ?t @ as"
      "\<forall>w P. Listen w P \<notin> set as"
      using stop_trace by blast
    with assms ChildClose True show ?thesis
      by (simp add: step_def ffmpeg_on_close_def)
  next
    case False
    with assms ChildClose show ?thesis by (simp add: step_def)
  qed
next
  case (ChildError pid err)
  show ?thesis
  proof (cases "pid < length (children s)")
    case True
    let ?t = "emit (Console (LogError err)) s"
    obtain as where "trace (fst (stopStream ?t (cport (children s ! pid)))) = trace ?t @ as"
      "\<forall>w P. Listen w P \<notin> set as"
      using stop_trace by blast
    with assms ChildError True show ?thesis
      by (simp add: step_def ffmpeg_on_error_def)
  next
    case False
    with assms ChildError show ?thesis by (simp add: step_def)
  qed
qed (use assms in \<open>auto simp: step_def ffmpeg_stderr_on_data_def wss_on_connection_def ws_on_close_def
       split: if_splits\<close>)

lemma start_registers:
  assumes "\<not> streams_has s K" "\<not> spawn_throws so"
  shows "streams_get (step s (HttpStart (StartBody u K) BindListens so)) K = Some (new_info s u)"
  using assms by (simp add: step_def http_start_state start_ok streams_get_def AList.update_conv')

lemma running_reg_reachable: "running_reg (run init es)"
  by (rule running_reg_run [OF running_reg_init])

lemma open_reg_reachable: "list_all (\<lambda>e. \<not> sync_spawn_throw e) es \<Longrightarrow> open_reg (run init es)"
  by (rule open_reg_run [OF open_reg_init])

lemma at_most_one:
  assumes "distinct xs" "\<And>x. x \<in> set xs \<Longrightarrow> x = a"
  shows "length xs \<le> 1"
proof (cases xs)
  case Nil
  then show ?thesis by simp
next
  case (Cons x ys)
  show ?thesis
  proof (cases ys)
    case Nil
    with Cons show ?thesis by simp
  next
    case (Cons y zs)
    with \<open>xs = x # ys\<close> assms(2) [of x] assms(2) [of y] assms(1) show ?thesis by simp
  qed
qed

lemma live_relays_registered:
  assumes "open_reg s" "w \<in> set (live_relays s P)"
  shows "\<exists>info. streams_get s P = Some info \<and> wss info = w"
  using assms by (auto simp: open_reg_def live_relays_def streams_get_def)

lemma live_handles_registered:
  assumes "running_reg s" "p \<in> set (live_handles s P)"
  shows "\<exists>info. streams_get s P = Some info \<and> ffmpeg info = p"
  using assms by (auto simp: running_reg_def live_handles_def streams_get_def)

lemma live_relays_le1: "open_reg s \<Longrightarrow> length (live_relays s P) \<le> 1"
proof (cases "streams_get s P")
  case None
  assume "open_reg s"
  with None live_relays_registered [of s _ P] have "set (live_relays s P) = {}" by fastforce
  then show ?thesis by simp
next
  case (Some info)
  assume o: "open_reg s"
  show ?thesis
  proof (rule at_most_one [where a = "wss info"])
    show "distinct (live_relays s P)" by (simp add: live_relays_def)
    fix x assume "x \<in> set (live_relays s P)"
    with live_relays_registered [OF o this] Some show "x = wss info" by auto
  qed
qed

lemma live_handles_le1: "running_reg s \<Longrightarrow> length (live_handles s P) \<le> 1"
proof (cases "streams_get s P")
  case None
  assume "running_reg s"
  with None live_handles_registered [of s _ P] have "set (live_handles s P) = {}" by fastforce
  then show ?thesis by simp
next
  case (Some info)
  assume o: "running_reg s"
  show ?thesis
  proof (rule at_most_one [where a = "ffmpeg info"])
    show "distinct (live_handles s P)" by (simp add: live_handles_def)
    fix x assume "x \<in> set (live_handles s P)"
    with live_handles_registered [OF o this] Some show "x = ffmpeg info" by auto
  qed
qed

subsection \<open>What a teardown does\<close>

text \<open>
  For a key that is not in \<^verbatim>\<open>streams\<close>, \<^verbatim>\<open>stopStream\<close> answers that no stream was
  found and returns the state it was given. Run directly after a \<^verbatim>\<open>stopStream\<close> for
  the same key, \<^verbatim>\<open>stopStream\<close> and the \<^verbatim>\<open>'close'\<close> and \<^verbatim>\<open>'error'\<close> handlers find the key
  absent and release nothing.
\<close>

lemma stop_unknown_key_noop:
  "(streams_get s K = None \<longrightarrow>
      stopStream s K = (s, Failure (NoStreamFound K)) \<and>
      http_stop s (StopBody K) = (s, (200, Failure (NoStreamFound K)))) \<and>
   stopStream (fst (stopStream s K)) K = (fst (stopStream s K), Failure (NoStreamFound K)) \<and>
   ffmpeg_on_close (fst (stopStream s K)) K code = emit (Console (LogExited code)) (fst (stopStream s K)) \<and>
   ffmpeg_on_error (fst (stopStream s K)) K err = emit (Console (LogError err)) (fst (stopStream s K))"
  by (simp add: stop_absent stop_twice http_stop_def ffmpeg_on_close_def ffmpeg_on_error_def)

text \<open>
  In a reachable state, \<^verbatim>\<open>stopStream\<close> for a key that is in \<^verbatim>\<open>streams\<close> sends
  \<^verbatim>\<open>SIGTERM\<close> to the child of the entry, calls \<^verbatim>\<open>close()\<close> on the server of the entry and
  deletes the key, in this order, and returns \<^verbatim>\<open>{success: true, message, port: K}\<close>.
\<close>

lemma stop_registered:
  assumes "streams_get (run init es) K = Some info"
  shows "case stopStream (run init es) K of
           (s', r) \<Rightarrow>
             r = StopOk (StreamStopped K) K \<and> success r \<and>
             http_stop (run init es) (StopBody K) = (s', (200, r)) \<and>
             streams_get s' K = None \<and>
             wport (servers s' ! wss info) = K \<and> closed (servers s' ! wss info) \<and>
             cport (children s' ! ffmpeg info) = K \<and> status (children s' ! ffmpeg info) \<noteq> Running \<and>
             trace s' = trace (run init es) @ [Kill (ffmpeg info), WssClose (wss info), RegistryDelete K]"
proof -
  note ids = registered_ids [OF assms]
  have t: "torn_down (fst (stopStream (run init es) K)) K info"
    using assms ids(1,2) by (rule stop_tears_down)
  have p: "wport (servers (fst (stopStream (run init es) K)) ! wss info) = K"
    "cport (children (fst (stopStream (run init es) K)) ! ffmpeg info) = K"
    using ids by (simp_all add: stop_present [OF assms] nth_upd_at)
  have r: "snd (stopStream (run init es) K) = StopOk (StreamStopped K) K"
    by (simp add: stop_present [OF assms])
  have tr: "trace (fst (stopStream (run init es) K)) =
      trace (run init es) @ [Kill (ffmpeg info), WssClose (wss info), RegistryDelete K]"
    by (simp add: stop_present [OF assms])
  show ?thesis
    using t p r tr by (simp add: torn_down_def http_stop_def case_prod_unfold)
qed

text \<open>
  In a reachable state, the \<^verbatim>\<open>'close'\<close> and \<^verbatim>\<open>'error'\<close> events of the child of a
  registered stream remove the key, call \<^verbatim>\<open>close()\<close> on its server and leave the child
  exited or signalled.
\<close>

lemma child_exit_tears_down:
  assumes "streams_get (run init es) K = Some info"
  shows "torn_down (step (run init es) (ChildClose (ffmpeg info) code)) K info \<and>
         torn_down (step (run init es) (ChildError (ffmpeg info) err)) K info"
proof -
  note ids = registered_ids [OF assms]
  let ?s = "run init es"
  let ?s1 = "emit (Console (LogExited code))
               (?s\<lparr>children := upd_at (ffmpeg info) (\<lambda>c. c\<lparr>status := Exited\<rparr>) (children ?s)\<rparr>)"
  have g1: "streams_get ?s1 K = Some info"
    using assms by (simp add: streams_get_def)
  have "torn_down (fst (stopStream ?s1 K)) K info"
    using g1 ids(1,2) by (intro stop_tears_down) simp_all
  then have a: "torn_down (step ?s (ChildClose (ffmpeg info) code)) K info"
    using ids by (simp add: step_def ffmpeg_on_close_def)
  let ?s2 = "emit (Console (LogError err)) ?s"
  have g2: "streams_get ?s2 K = Some info"
    using assms by simp
  have "torn_down (fst (stopStream ?s2 K)) K info"
    using g2 ids(1,2) by (intro stop_tears_down) simp_all
  then have b: "torn_down (step ?s (ChildError (ffmpeg info) err)) K info"
    using ids by (simp add: step_def ffmpeg_on_error_def)
  from a b show ?thesis ..
qed

section \<open>The claims\<close>

text \<open>
  The order that claim C1 states fails at the first start request: \<^verbatim>\<open>startStream\<close>
  constructs the \<^verbatim>\<open>WebSocketServer\<close> on port 9900 before \<^verbatim>\<open>streams.set(9900, ...)\<close>.
\<close>

theorem bind_precedes_insert_counterexample:
  "\<not> bound_only_after_insert []
       (trace (run init [HttpStart (StartBody ''rtsp://cam1'' 9900) BindListens SpawnRuns]))"
  by code_simp

text \<open>
  Claim C1, as the code has it. A step of the server binds a listener on port \<open>P\<close> only
  when it handles a start request for \<open>P\<close> while \<open>P\<close> is absent from \<^verbatim>\<open>streams\<close>; the
  listener is the newly made server, and unless \<^verbatim>\<open>spawn\<close> throws, the same step then
  registers \<open>P\<close> with this server and the newly made child. In every state reached by
  events among which no start request had \<^verbatim>\<open>spawn\<close> throw, at most one listener on \<open>P\<close>
  is open, and it is the one registered for \<open>P\<close>; in every reachable state at most one
  child started for \<open>P\<close> runs unsignalled, and it is the one registered for \<open>P\<close>.
\<close>

theorem listener_bound_by_start_only:
  "(Listen w P \<in> set (drop (length (trace s)) (trace (step s e))) \<longrightarrow>
      (\<exists>u so. e = HttpStart (StartBody u P) BindListens so) \<and> \<not> streams_has s P \<and>
      w = length (servers s) \<and>
      (\<not> sync_spawn_throw e \<longrightarrow>
         (\<exists>info. streams_get (step s e) P = Some info \<and> wss info = w \<and>
                 ffmpeg info = length (children s)))) \<and>
   (list_all (\<lambda>e. \<not> sync_spawn_throw e) es \<longrightarrow>
      length (live_relays (run init es) P) \<le> 1 \<and>
      (\<forall>w \<in> set (live_relays (run init es) P).
         \<exists>info. streams_get (run init es) P = Some info \<and> wss info = w)) \<and>
   length (live_handles (run init es) P) \<le> 1 \<and>
   (\<forall>p \<in> set (live_handles (run init es) P).
      \<exists>info. streams_get (run init es) P = Some info \<and> ffmpeg info = p)"
proof (intro conjI impI ballI)
  assume l: "Listen w P \<in> set (drop (length (trace s)) (trace (step s e)))"
  note f = step_listen [OF l]
  from f show "\<exists>u so. e = HttpStart (StartBody u P) BindListens so" by simp
  from f show "\<not> streams_has s P" by simp
  from f show "w = length (servers s)" by simp
  assume n: "\<not> sync_spawn_throw e"
  from f obtain u so where e: "e = HttpStart (StartBody u P) BindListens so" by blast
  with n have "\<not> spawn_throws so" by simp
  with f have "streams_get (step s e) P = Some (new_info s u)"
    unfolding e by (intro start_registers) simp_all
  with f show "\<exists>info. streams_get (step s e) P = Some info \<and> wss info = w \<and>
                 ffmpeg info = length (children s)"
    by (simp add: new_info_def)
next
  assume "list_all (\<lambda>e. \<not> sync_spawn_throw e) es"
  then show "length (live_relays (run init es) P) \<le> 1"
    by (intro live_relays_le1 open_reg_reachable)
next
  fix w
  assume "list_all (\<lambda>e. \<not> sync_spawn_throw e) es" "w \<in> set (live_relays (run init es) P)"
  then show "\<exists>info. streams_get (run init es) P = Some info \<and> wss info = w"
    by (intro live_relays_registered open_reg_reachable)
next
  show "length (live_handles (run init es) P) \<le> 1"
    by (intro live_handles_le1 running_reg_reachable)
next
  fix p
  assume "p \<in> set (live_handles (run init es) P)"
  then show "\<exists>info. streams_get (run init es) P = Some info \<and> ffmpeg info = p"
    by (intro live_handles_registered running_reg_reachable)
qed

theorem listener_bound_by_start_only_witness:
  "Listen 0 9900 \<in> set (drop (length (trace init))
      (trace (step init (HttpStart (StartBody ''rtsp://cam1'' 9900) BindListens SpawnRuns)))) \<and>
   \<not> streams_has init 9900 \<and>
   \<not> sync_spawn_throw (HttpStart (StartBody ''rtsp://cam1'' 9900) BindListens SpawnRuns) \<and>
   list_all (\<lambda>e. \<not> sync_spawn_throw e) [HttpStart (StartBody ''rtsp://cam1'' 9900) BindListens SpawnRuns] \<and>
   streams_get (step init (HttpStart (StartBody ''rtsp://cam1'' 9900) BindListens SpawnRuns)) 9900 =
     Some \<lparr>rtspUrl = ''rtsp://cam1'', wss = 0, ffmpeg = 0, totalBytes = 0\<rparr> \<and>
   live_relays (run init [HttpStart (StartBody ''rtsp://cam1'' 9900) BindListens SpawnRuns]) 9900 = [0] \<and>
   live_handles (run init [HttpStart (StartBody ''rtsp://cam1'' 9900) BindListens SpawnRuns]) 9900 = [0]"
proof -
  let ?e = "HttpStart (StartBody ''rtsp://cam1'' 9900) BindListens SpawnRuns"
  have a: "Listen 0 9900 \<in> set (drop (length (trace init)) (trace (step init ?e)))"
    by code_simp
  have b: "\<not> streams_has init 9900" "\<not> sync_spawn_throw ?e" "list_all (\<lambda>e. \<not> sync_spawn_throw e) [?e]"
    by code_simp+
  have c: "streams_get (step init ?e) 9900 =
     Some \<lparr>rtspUrl = ''rtsp://cam1'', wss = 0, ffmpeg = 0, totalBytes = 0\<rparr>"
    by code_simp
  have d: "live_relays (run init [?e]) 9900 = [0]" "live_handles (run init [?e]) 9900 = [0]"
    by code_simp+
  from listener_bound_by_start_only [of 0 9900 init ?e "[?e]"] a b c d
  show ?thesis by simp
qed

text \<open>
  Claim C2 fails for a launch that fails in the operating system: the child never
  started, the caller is answered \<^verbatim>\<open>{success: true}\<close> and port 9900 is registered.
\<close>

theorem failed_launch_answered_success_counterexample:
  "status (children (fst (http_start BindListens SpawnFails init (StartBody ''rtsp://cam1'' 9900))) ! 0) =
     LaunchFailed \<and>
   snd (http_start BindListens SpawnFails init (StartBody ''rtsp://cam1'' 9900)) =
     (200, StartOk (StreamStarted 9900) (WsUrl 9900) 9900) \<and>
   streams_has (fst (http_start BindListens SpawnFails init (StartBody ''rtsp://cam1'' 9900))) 9900"
  by code_simp

text \<open>
  Claim C2, as the code has it. For a start request on an absent key: when the
  construction of the \<^verbatim>\<open>WebSocketServer\<close> or \<^verbatim>\<open>spawn\<close> throws, the caller is answered
  status 400 with \<^verbatim>\<open>{success: false, message: e.message}\<close> and \<^verbatim>\<open>streams\<close> is unchanged.
  When the launch fails in the operating system, \<^verbatim>\<open>spawn\<close> has returned: the caller is
  answered \<^verbatim>\<open>{success: true}\<close> and the key is registered with a child that never ran; the
  \<^verbatim>\<open>'error'\<close> event of that child then removes the key, from \<^verbatim>\<open>streams\<close> and from the
  answer of \<^verbatim>\<open>/api/streams\<close>, and closes the server.
\<close>

theorem launch_failure_handling:
  assumes "\<not> streams_has s K"
  shows "http_start (BindThrows m) so s (StartBody u K) =
           (emit (Console (LogStarting u K)) s, (400, Failure (ExnMessage m))) \<and>
         (case http_start BindListens (SpawnThrows m) s (StartBody u K) of
            (s', r) \<Rightarrow> r = (400, Failure (ExnMessage m)) \<and> streams s' = streams s) \<and>
         (case http_start BindListens SpawnFails s (StartBody u K) of
            (s', r) \<Rightarrow>
              r = (200, StartOk (StreamStarted K) (WsUrl K) K) \<and>
              streams_get s' K = Some (new_info s u) \<and>
              status (children s' ! length (children s)) = LaunchFailed \<and>
              torn_down (step s' (ChildError (length (children s)) err)) K (new_info s u))"
proof (intro conjI)
  show "http_start (BindThrows m) so s (StartBody u K) =
           (emit (Console (LogStarting u K)) s, (400, Failure (ExnMessage m)))"
    using assms by (simp add: http_start_def start_bind_throws)
  show "case http_start BindListens (SpawnThrows m) s (StartBody u K) of
            (s', r) \<Rightarrow> r = (400, Failure (ExnMessage m)) \<and> streams s' = streams s"
    using assms by (simp add: http_start_def start_spawn_throws)
  let ?s' = "fst (startStream BindListens SpawnFails s u K)"
  have h: "http_start BindListens SpawnFails s (StartBody u K) =
      (?s', (200, StartOk (StreamStarted K) (WsUrl K) K))"
    using assms by (simp add: http_start_ok)
  have g: "streams_get ?s' K = Some (new_info s u)"
    by (simp add: start_ok streams_get_def AList.update_conv')
  have c: "children ?s' = children s @ [new_child SpawnFails s K]"
    "servers ?s' = servers s @ [new_server K]"
    by (simp_all add: start_ok)
  have st: "status (children ?s' ! length (children s)) = LaunchFailed"
    by (simp add: c new_child_def)
  have cp: "cport (children ?s' ! length (children s)) = K"
    by (simp add: c new_child_def)
  have "torn_down (fst (stopStream (emit (Console (LogError err)) ?s') K)) K (new_info s u)"
    using g by (intro stop_tears_down) (simp_all add: c new_info_def)
  then have t: "torn_down (step ?s' (ChildError (length (children s)) err)) K (new_info s u)"
    by (simp add: step_def ffmpeg_on_error_def c(1) new_child_def)
  show "case http_start BindListens SpawnFails s (StartBody u K) of
            (s', r) \<Rightarrow>
              r = (200, StartOk (StreamStarted K) (WsUrl K) K) \<and>
              streams_get s' K = Some (new_info s u) \<and>
              status (children s' ! length (children s)) = LaunchFailed \<and>
              torn_down (step s' (ChildError (length (children s)) err)) K (new_info s u)"
    using g st t by (simp add: h)
qed

theorem launch_failure_handling_witness:
  "\<not> streams_has init 9900 \<and>
   snd (http_start (BindThrows ''thrown'') SpawnRuns init (StartBody ''rtsp://cam1'' 9900)) =
     (400, Failure (ExnMessage ''thrown'')) \<and>
   snd (http_start BindListens (SpawnThrows ''thrown'') init (StartBody ''rtsp://cam1'' 9900)) =
     (400, Failure (ExnMessage ''thrown'')) \<and>
   streams (fst (http_start BindListens (SpawnThrows ''thrown'') init (StartBody ''rtsp://cam1'' 9900))) = [] \<and>
   snd (http_start BindListens SpawnFails init (StartBody ''rtsp://cam1'' 9900)) =
     (200, StartOk (StreamStarted 9900) (WsUrl 9900) 9900) \<and>
   http_streams (run init [HttpStart (StartBody ''rtsp://cam1'' 9900) BindListens SpawnFails,
      ChildError 0 ''spawn ffmpeg ENOENT'']) = []"
proof -
  have a: "\<not> streams_has init 9900"
    by code_simp
  have b: "streams init = []" "length (children init) = 0"
    by (simp_all add: init_def)
  have c: "http_streams (run init [HttpStart (StartBody ''rtsp://cam1'' 9900) BindListens SpawnFails,
      ChildError 0 ''spawn ffmpeg ENOENT'']) = []"
    by code_simp
  from launch_failure_handling [OF a, of "''thrown''" SpawnRuns "''rtsp://cam1''"
      "''spawn ffmpeg ENOENT''"] a b c
  show ?thesis by (simp add: case_prod_unfold)
qed

text \<open>
  Claim C3. A start request for a key that is in \<^verbatim>\<open>streams\<close> is answered with status 400
  and \<^verbatim>\<open>{success: false, message: "Port K is already in use"}\<close>, and changes nothing. So
  when a first start request for an absent key went through (nothing thrown), a second
  one for the same key gets that answer and leaves the state of the first untouched:
  \<^verbatim>\<open>streams\<close> holds exactly one entry for the key, the one of the first request.
\<close>

theorem second_start_rejected:
  "(streams_has s' K \<longrightarrow>
      http_start bo so s' (StartBody u K) = (s', (400, Failure (PortInUse K)))) \<and>
   (\<not> streams_has s K \<and> \<not> spawn_throws so1 \<longrightarrow>
      (case http_start BindListens so1 s (StartBody u1 K) of
         (s1, r1) \<Rightarrow>
           r1 = (200, StartOk (StreamStarted K) (WsUrl K) K) \<and>
           http_start bo so s1 (StartBody u K) = (s1, (400, Failure (PortInUse K))) \<and>
           streams_get s1 K = Some (new_info s u1) \<and>
           length (filter (\<lambda>e. fst e = K) (streams s1)) = 1))"
proof (intro conjI impI)
  assume "streams_has s' K"
  then show "http_start bo so s' (StartBody u K) = (s', (400, Failure (PortInUse K)))"
    by (rule http_start_has)
next
  assume a: "\<not> streams_has s K \<and> \<not> spawn_throws so1"
  then have abs: "map_of (streams s) K = None" and nt: "\<not> spawn_throws so1"
    by (simp_all add: streams_has_def)
  have none: "filter (\<lambda>e. fst e = K) (streams s) = []"
    using abs by (auto simp: filter_empty_conv map_of_eq_None_iff)
  let ?s1 = "fst (startStream BindListens so1 s u1 K)"
  have st: "streams ?s1 = streams s @ [(K, new_info s u1)]"
    by (simp add: start_ok [OF nt] update_absent [OF abs])
  have has: "streams_has ?s1 K"
    by (simp add: streams_has_def st)
  have get: "streams_get ?s1 K = Some (new_info s u1)"
    by (simp add: streams_get_def start_ok [OF nt] AList.update_conv')
  show "case http_start BindListens so1 s (StartBody u1 K) of
         (s1, r1) \<Rightarrow>
           r1 = (200, StartOk (StreamStarted K) (WsUrl K) K) \<and>
           http_start bo so s1 (StartBody u K) = (s1, (400, Failure (PortInUse K))) \<and>
           streams_get s1 K = Some (new_info s u1) \<and>
           length (filter (\<lambda>e. fst e = K) (streams s1)) = 1"
    using a by (simp add: http_start_ok http_start_has [OF has] get st none)
qed

theorem second_start_rejected_witness:
  "\<not> streams_has init 9900 \<and> \<not> spawn_throws SpawnRuns \<and>
   streams_has (fst (http_start BindListens SpawnRuns init (StartBody ''rtsp://cam1'' 9900))) 9900 \<and>
   http_start BindListens SpawnRuns init (StartBody ''rtsp://cam1'' 9900) =
     (run init [HttpStart (StartBody ''rtsp://cam1'' 9900) BindListens SpawnRuns],
      (200, StartOk (StreamStarted 9900) (WsUrl 9900) 9900)) \<and>
   http_start BindListens SpawnRuns
       (run init [HttpStart (StartBody ''rtsp://cam1'' 9900) BindListens SpawnRuns])
       (StartBody ''rtsp://cam2'' 9900) =
     (run init [HttpStart (StartBody ''rtsp://cam1'' 9900) BindListens SpawnRuns],
      (400, Failure (PortInUse 9900))) \<and>
   map fst (streams (run init [HttpStart (StartBody ''rtsp://cam1'' 9900) BindListens SpawnRuns])) = [9900]"
  using second_start_rejected [of "fst (http_start BindListens SpawnRuns init (StartBody ''rtsp://cam1'' 9900))"
      9900 BindListens SpawnRuns "''rtsp://cam2''" init SpawnRuns "''rtsp://cam1''"]
  by (simp add: eval_defs)

text \<open>
  Claim C4 fails on the code: \<^verbatim>\<open>stopStream\<close> does not shut the relay down. With one
  viewer connected to the stream on port 9900, the stop request is answered
  \<^verbatim>\<open>{success: true, port: 9900}\<close> and the listener is closed, but the viewer's socket is
  still an open client of the server, and a chunk that the child writes after the stop is
  still sent to it.
\<close>

theorem stop_leaves_viewers_connected:
  "snd (http_stop (run init [HttpStart (StartBody ''rtsp://cam1'' 9900) BindListens SpawnRuns, WsConnect 0]) (StopBody 9900)) =
     (200, StopOk (StreamStopped 9900) 9900) \<and>
   streams_get (run init [HttpStart (StartBody ''rtsp://cam1'' 9900) BindListens SpawnRuns, WsConnect 0, HttpStop (StopBody 9900)]) 9900 = None \<and>
   closed (servers (run init [HttpStart (StartBody ''rtsp://cam1'' 9900) BindListens SpawnRuns, WsConnect 0, HttpStop (StopBody 9900)]) ! 0) \<and>
   viewer (run init [HttpStart (StartBody ''rtsp://cam1'' 9900) BindListens SpawnRuns, WsConnect 0, HttpStop (StopBody 9900)]) 0 0 \<and>
   sent (sockets (run init [HttpStart (StartBody ''rtsp://cam1'' 9900) BindListens SpawnRuns, WsConnect 0, HttpStop (StopBody 9900), StdoutData 0 [65]]) ! 0) =
     [[65]]"
  by code_simp

text \<open>
  Claim C5 fails on the code: a teardown triggered by the exit of a child is not always
  the observation of an absent key. The stream on port 9900 is stopped, which is one
  teardown of the key, and started again before the \<^verbatim>\<open>'close'\<close> event of the first child
  arrives. The handler of that event stops by port: it finds the key present and releases
  the resources of the second stream, which disappears from \<^verbatim>\<open>streams\<close>.
\<close>

theorem stale_exit_stops_restarted_stream:
  "streams_get (run init [HttpStart (StartBody ''rtsp://cam1'' 9900) BindListens SpawnRuns, HttpStop (StopBody 9900), HttpStart (StartBody ''rtsp://cam2'' 9900) BindListens SpawnRuns]) 9900 =
     Some \<lparr>rtspUrl = ''rtsp://cam2'', wss = 1, ffmpeg = 1, totalBytes = 0\<rparr> \<and>
   status (children (run init [HttpStart (StartBody ''rtsp://cam1'' 9900) BindListens SpawnRuns, HttpStop (StopBody 9900), HttpStart (StartBody ''rtsp://cam2'' 9900) BindListens SpawnRuns]) ! 1) = Running \<and>
   drop (length (trace (run init [HttpStart (StartBody ''rtsp://cam1'' 9900) BindListens SpawnRuns, HttpStop (StopBody 9900), HttpStart (StartBody ''rtsp://cam2'' 9900) BindListens SpawnRuns])))
        (trace (run init [HttpStart (StartBody ''rtsp://cam1'' 9900) BindListens SpawnRuns, HttpStop (StopBody 9900), HttpStart (StartBody ''rtsp://cam2'' 9900) BindListens SpawnRuns, ChildClose 0 None])) =
     [Console (LogExited None), Kill 1, WssClose 1, RegistryDelete 9900] \<and>
   status (children (run init [HttpStart (StartBody ''rtsp://cam1'' 9900) BindListens SpawnRuns, HttpStop (StopBody 9900), HttpStart (StartBody ''rtsp://cam2'' 9900) BindListens SpawnRuns, ChildClose 0 None]) ! 1) =
     Terminating \<and>
   closed (servers (run init [HttpStart (StartBody ''rtsp://cam1'' 9900) BindListens SpawnRuns, HttpStop (StopBody 9900), HttpStart (StartBody ''rtsp://cam2'' 9900) BindListens SpawnRuns, ChildClose 0 None]) ! 1) \<and>
   http_streams (run init [HttpStart (StartBody ''rtsp://cam1'' 9900) BindListens SpawnRuns, HttpStop (StopBody 9900), HttpStart (StartBody ''rtsp://cam2'' 9900) BindListens SpawnRuns, ChildClose 0 None]) = []"
  by code_simp

text \<open>
  Claim C6. Let \<open>c\<close> and \<open>c'\<close> be open clients of server \<open>w\<close> in a reachable state, and let
  the server go on with events that do not close them. Each chunk written by the child
  attached to \<open>w\<close> is passed to \<^verbatim>\<open>send\<close> of every open client of \<open>w\<close>: after one
  \<^verbatim>\<open>stdout\<close> event the chunk is the last one sent to \<open>c\<close>, and after the whole run \<open>c\<close> and
  \<open>c'\<close> were both sent, after what they had before, the same sequence: the chunks of the
  run, in the order the child wrote them.
\<close>

theorem relay_delivers_in_order:
  assumes "s = run init es0" "viewer s w c" "viewer s w c'" "keeps_open c es" "keeps_open c' es"
  shows "sent (sockets (run s es) ! c) = sent (sockets s ! c) @ chunks_of s w es \<and>
         sent (sockets (run s es) ! c') = sent (sockets s ! c') @ chunks_of s w es \<and>
         (pid < length (children s) \<and> cwss (children s ! pid) = w \<longrightarrow>
            sent (sockets (step s (StdoutData pid d)) ! c) = sent (sockets s ! c) @ [d])"
proof -
  have ok: "clients_ok s" "children_ok s"
    using assms(1) by (simp_all add: clients_ok_reachable children_ok_reachable)
  have a: "sent (sockets (run s es) ! c) = sent (sockets s ! c) @ chunks_of s w es"
    using sent_run [OF ok assms(2,4)] by simp
  have b: "sent (sockets (run s es) ! c') = sent (sockets s ! c') @ chunks_of s w es"
    using sent_run [OF ok assms(3,5)] by simp
  have "sent (sockets (step s (StdoutData pid d)) ! c) = sent (sockets s ! c) @ stdout_for s w (StdoutData pid d)"
    using ok(1) assms(2) by (rule sent_step) simp_all
  with a b show ?thesis by simp
qed

theorem relay_delivers_in_order_witness:
  "viewer (run init [HttpStart (StartBody ''rtsp://cam1'' 9900) BindListens SpawnRuns, WsConnect 0, WsConnect 0]) 0 0 \<and>
   viewer (run init [HttpStart (StartBody ''rtsp://cam1'' 9900) BindListens SpawnRuns, WsConnect 0, WsConnect 0]) 0 1 \<and>
   keeps_open 0 [StdoutData 0 [65], StdoutData 0 [66], StdoutData 0 [67]] \<and>
   keeps_open 1 [StdoutData 0 [65], StdoutData 0 [66], StdoutData 0 [67]] \<and>
   sent (sockets (run init [HttpStart (StartBody ''rtsp://cam1'' 9900) BindListens SpawnRuns, WsConnect 0, WsConnect 0,
       StdoutData 0 [65], StdoutData 0 [66], StdoutData 0 [67]]) ! 0) = [[65], [66], [67]] \<and>
   sent (sockets (run init [HttpStart (StartBody ''rtsp://cam1'' 9900) BindListens SpawnRuns, WsConnect 0, WsConnect 0,
       StdoutData 0 [65], StdoutData 0 [66], StdoutData 0 [67]]) ! 1) = [[65], [66], [67]]"
proof -
  let ?pre = "[HttpStart (StartBody ''rtsp://cam1'' 9900) BindListens SpawnRuns, WsConnect 0, WsConnect 0]"
  let ?post = "[StdoutData 0 [65], StdoutData 0 [66], StdoutData 0 [67 :: 8 word]]"
  have v: "viewer (run init ?pre) 0 0" "viewer (run init ?pre) 0 1"
    by code_simp+
  have k: "keeps_open 0 ?post" "keeps_open 1 ?post"
    by code_simp+
  have r: "run init (?pre @ ?post) = run (run init ?pre) ?post"
    by (rule run_append)
  have c: "chunks_of (run init ?pre) 0 ?post = [[65], [66], [67]]"
    by code_simp
  have s0: "sent (sockets (run init ?pre) ! 0) = []" "sent (sockets (run init ?pre) ! 1) = []"
    by code_simp+
  from relay_delivers_in_order [OF refl v k, of 0 "[65]"] v k r c s0
  show ?thesis by simp
qed

text \<open>
  Claim C7. A connection accepted by an open server \<open>w\<close> in a reachable state \<open>s\<close> makes a
  new socket, the one numbered \<open>length (sockets s)\<close>, which is an open client of \<open>w\<close> and
  was sent nothing. As long as no event closes it, the chunks sent to it are exactly those
  the child attached to \<open>w\<close> writes after the connection, in order: no chunk written
  before the connection, of the run \<open>es0\<close> that led to \<open>s\<close>, is ever sent to it.
\<close>

theorem late_viewer_gets_no_replay:
  assumes "s = run init es0" "w < length (servers s)" "\<not> closed (servers s ! w)"
    "keeps_open (length (sockets s)) es"
  shows "length (sockets (step s (WsConnect w))) = Suc (length (sockets s)) \<and>
         viewer (step s (WsConnect w)) w (length (sockets s)) \<and>
         sent (sockets (run s (WsConnect w # es)) ! length (sockets s)) = chunks_of s w es"
proof -
  let ?t = "step s (WsConnect w)"
  let ?c = "length (sockets s)"
  have ok: "clients_ok s" "children_ok s"
    using assms(1) by (simp_all add: clients_ok_reachable children_ok_reachable)
  have t: "?t = emit (Console (LogConnected (wport (servers s ! w)))) (accept w s)"
    using assms(2,3) by (simp add: step_def wss_on_connection_def)
  have l: "length (sockets ?t) = Suc ?c"
    by (simp add: t)
  have v: "viewer ?t w ?c"
    using assms(2) by (simp add: t viewer_def nth_upd_at)
  have e: "sent (sockets ?t ! ?c) = []"
    by (simp add: t)
  have "sent (sockets (run ?t es) ! ?c) = sent (sockets ?t ! ?c) @ chunks_of ?t w es"
    using sent_run [OF clients_ok_step [OF ok(1)] children_ok_step [OF ok(2)] v assms(4)] by simp
  then have "sent (sockets (run s (WsConnect w # es)) ! ?c) = chunks_of s w es"
    by (simp add: e chunks_of_step [OF ok(2) assms(2)])
  with l v show ?thesis by simp
qed

theorem late_viewer_gets_no_replay_witness:
  "0 < length (servers (run init [HttpStart (StartBody ''rtsp://cam1'' 9900) BindListens SpawnRuns,
       WsConnect 0, WsConnect 0, StdoutData 0 [65], StdoutData 0 [66]])) \<and>
   \<not> closed (servers (run init [HttpStart (StartBody ''rtsp://cam1'' 9900) BindListens SpawnRuns,
       WsConnect 0, WsConnect 0, StdoutData 0 [65], StdoutData 0 [66]]) ! 0) \<and>
   length (sockets (run init [HttpStart (StartBody ''rtsp://cam1'' 9900) BindListens SpawnRuns,
       WsConnect 0, WsConnect 0, StdoutData 0 [65], StdoutData 0 [66]])) = 2 \<and>
   keeps_open 2 [StdoutData 0 [67]] \<and>
   sent (sockets (run init [HttpStart (StartBody ''rtsp://cam1'' 9900) BindListens SpawnRuns,
       WsConnect 0, WsConnect 0, StdoutData 0 [65], StdoutData 0 [66], WsConnect 0, StdoutData 0 [67]]) ! 2) = [[67]] \<and>
   sent (sockets (run init [HttpStart (StartBody ''rtsp://cam1'' 9900) BindListens SpawnRuns,
       WsConnect 0, WsConnect 0, StdoutData 0 [65], StdoutData 0 [66], WsConnect 0, StdoutData 0 [67]]) ! 0) = [[65], [66], [67]]"
proof -
  let ?pre = "[HttpStart (StartBody ''rtsp://cam1'' 9900) BindListens SpawnRuns,
       WsConnect 0, WsConnect 0, StdoutData 0 [65], StdoutData 0 [66 :: 8 word]]"
  let ?post = "[StdoutData 0 [67 :: 8 word]]"
  have w: "0 < length (servers (run init ?pre))" "\<not> closed (servers (run init ?pre) ! 0)"
    by code_simp+
  have n: "length (sockets (run init ?pre)) = 2"
    by code_simp
  have k: "keeps_open 2 ?post"
    by code_simp
  have k': "keeps_open (length (sockets (run init ?pre))) ?post"
    using k n by simp
  have r: "run init (?pre @ WsConnect 0 # ?post) = run (run init ?pre) (WsConnect 0 # ?post)"
    by (rule run_append)
  have c: "chunks_of (run init ?pre) 0 ?post = [[67]]"
    by code_simp
  have o: "sent (sockets (run init (?pre @ WsConnect 0 # ?post)) ! 0) = [[65], [66], [67]]"
    by code_simp
  from late_viewer_gets_no_replay [OF refl w k'] w n k r c o
  show ?thesis by simp
qed

text \<open>
  Claim C8 fails on the code: the teardown that the exit or the error of the child
  triggers does not shut the relay down. With one viewer connected to the stream on port
  9900, the \<^verbatim>\<open>'close'\<close> event of the child removes the key from the answer of
  \<^verbatim>\<open>/api/streams\<close> and closes the listener, but the viewer's socket is still an open client
  of the server; after an \<^verbatim>\<open>'error'\<close> event of a child that goes on running, a chunk the
  child writes is still sent to the viewer.
\<close>

theorem child_exit_leaves_viewers_connected:
  "http_streams (run init [HttpStart (StartBody ''rtsp://cam1'' 9900) BindListens SpawnRuns, WsConnect 0, ChildClose 0 None]) = [] \<and>
   closed (servers (run init [HttpStart (StartBody ''rtsp://cam1'' 9900) BindListens SpawnRuns, WsConnect 0, ChildClose 0 None]) ! 0) \<and>
   viewer (run init [HttpStart (StartBody ''rtsp://cam1'' 9900) BindListens SpawnRuns, WsConnect 0, ChildClose 0 None]) 0 0 \<and>
   http_streams (run init [HttpStart (StartBody ''rtsp://cam1'' 9900) BindListens SpawnRuns, WsConnect 0, ChildError 0 ''kill EPERM'']) = [] \<and>
   viewer (run init [HttpStart (StartBody ''rtsp://cam1'' 9900) BindListens SpawnRuns, WsConnect 0, ChildError 0 ''kill EPERM'']) 0 0 \<and>
   sent (sockets (run init [HttpStart (StartBody ''rtsp://cam1'' 9900) BindListens SpawnRuns, WsConnect 0, ChildError 0 ''kill EPERM'', StdoutData 0 [65]]) ! 0) =
     [[65]]"
  by code_simp

text \<open>
  Claim C9. For every sequence of outputs on the \<^verbatim>\<open>stderr\<close> of a child (the texts of its
  \<^verbatim>\<open>'data'\<close> events), the handler changes nothing but the console, and the lines it
  writes there are, in order, exactly the outputs that do not contain \<^verbatim>\<open>frame=\<close>, each
  trimmed and printed after \<^verbatim>\<open>FFmpeg [port]:\<close>; an output that contains \<^verbatim>\<open>frame=\<close>
  anywhere is dropped. \<^const>\<open>js_includes\<close> is the substring test.
\<close>

theorem stderr_progress_filtered:
  "foldl (\<lambda>s m. ffmpeg_stderr_on_data s p m) s msgs =
     s\<lparr>trace := trace s @ map (\<lambda>m. Console (LogFFmpeg p (trim m)))
                            (filter (\<lambda>m. \<not> js_includes m ''frame='') msgs)\<rparr> \<and>
   js_includes m ''frame='' = (\<exists>a b. m = a @ ''frame='' @ b)"
  by (simp add: stderr_run js_includes_iff)

theorem stderr_progress_filtered_witness:
  "trace (foldl (\<lambda>s m. ffmpeg_stderr_on_data s 9900 m) init
      [''frame=  25 fps= 25 q=5.0 size=  120kB'', '' Input #0, rtsp, from cam1 '', ''Press [q] to stop''])
   = [Console (LogFFmpeg 9900 ''Input #0, rtsp, from cam1''), Console (LogFFmpeg 9900 ''Press [q] to stop'')]"
proof -
  have t: "trim '' Input #0, rtsp, from cam1 '' = ''Input #0, rtsp, from cam1''"
    "trim ''Press [q] to stop'' = ''Press [q] to stop''"
    by code_simp+
  have i: "js_includes ''frame=  25 fps= 25 q=5.0 size=  120kB'' ''frame=''"
    "\<not> js_includes '' Input #0, rtsp, from cam1 '' ''frame=''"
    "\<not> js_includes ''Press [q] to stop'' ''frame=''"
    by code_simp+
  have e: "trace init = []"
    by (simp add: init_def)
  show ?thesis
    using stderr_progress_filtered [of 9900 init
        "[''frame=  25 fps= 25 q=5.0 size=  120kB'', '' Input #0, rtsp, from cam1 '', ''Press [q] to stop'']"]
    by (simp add: t i e)
qed

text \<open>
  Claim C10. In every state the server can reach, the \<^verbatim>\<open>totalBytes\<close> field of every entry
  of \<^verbatim>\<open>streams\<close> is 0. The \<^verbatim>\<open>stdout\<close> handler leaves \<^verbatim>\<open>streams\<close> as it is and adds the
  length of each chunk to the local variable \<^verbatim>\<open>totalBytes\<close> of the \<^verbatim>\<open>startStream\<close> call
  that made the child, which nothing reads.
\<close>

theorem registry_totalBytes_stays_zero:
  "(streams_get (run init es) K = Some info \<longrightarrow> totalBytes info = 0) \<and>
   streams (ffmpeg_stdout_on_data s pid w d) = streams s \<and>
   (pid < length (children s) \<longrightarrow>
      local_totalBytes (children (ffmpeg_stdout_on_data s pid w d) ! pid) =
        local_totalBytes (children s ! pid) + length d)"
  using registered_ids(6) [of es K info] by (simp add: nth_upd_at)

theorem registry_totalBytes_stays_zero_witness:
  "streams_get (run init [HttpStart (StartBody ''rtsp://cam1'' 9900) BindListens SpawnRuns,
      StdoutData 0 [1, 2, 3], StdoutData 0 [4, 5]]) 9900 =
     Some \<lparr>rtspUrl = ''rtsp://cam1'', wss = 0, ffmpeg = 0, totalBytes = 0\<rparr> \<and>
   local_totalBytes (children (run init [HttpStart (StartBody ''rtsp://cam1'' 9900) BindListens SpawnRuns,
      StdoutData 0 [1, 2, 3], StdoutData 0 [4, 5]]) ! 0) = 5"
proof -
  let ?run = "run init [HttpStart (StartBody ''rtsp://cam1'' 9900) BindListens SpawnRuns,
      StdoutData 0 [1, 2, 3], StdoutData 0 [4, 5]]"
  have g: "streams_get ?run 9900 = Some \<lparr>rtspUrl = ''rtsp://cam1'', wss = 0, ffmpeg = 0, totalBytes = 0\<rparr>"
    by code_simp
  have l: "local_totalBytes (children ?run ! 0) = 5"
    by code_simp
  from registry_totalBytes_stays_zero [of "[HttpStart (StartBody ''rtsp://cam1'' 9900) BindListens SpawnRuns,
      StdoutData 0 [1, 2, 3], StdoutData 0 [4, 5]]" 9900
      "\<lparr>rtspUrl = ''rtsp://cam1'', wss = 0, ffmpeg = 0, totalBytes = 0\<rparr>"] g l
  show ?thesis by simp
qed

end
